theory Spec2Isabelle
  imports Main "HOL-Library.Multiset"
begin

section \<open>The maze generator and the movement handler of App.tsx\<close>

subsection \<open>Data\<close>

text \<open>
  \<^verbatim>\<open>type Cell = 0 | 1\<close>: 0 is a wall, 1 is a passage. A JavaScript array may have
  empty slots and reads \<^verbatim>\<open>undefined\<close> outside its length, so a row is a list of
  optional cells: \<open>None\<close> is an empty slot. The maze is indexed row first:
  \<^verbatim>\<open>maze[y][x]\<close>.
\<close>

datatype cell = Wall | Path

type_synonym row = "cell option list"

type_synonym maze = "row list"

text \<open>A stack entry \<^verbatim>\<open>[x, y]\<close>.\<close>

type_synonym coord = "int \<times> int"

text \<open>
  \<open>TypeError\<close> is what JavaScript throws on \<^verbatim>\<open>undefined[i] = v\<close>, and \<open>RangeError\<close> what
  it throws when an array of \<open>2\<^sup>3\<^sup>2\<close> or more elements is to be built. \<open>NegativeIndex\<close>
  is not a JavaScript error: an assignment at a negative index adds a property to the
  array object and no element, which a list cannot hold, so the model stops there.
  Lemma \<open>generateMaze_result\<close> below shows that the generator never gets there.
\<close>

datatype error = TypeError | RangeError | NegativeIndex

text \<open>The constants of the module. The goal is fixed by them, not by the arguments of
  \<^verbatim>\<open>generateMaze\<close>.\<close>

definition MAZE_WIDTH :: int where "MAZE_WIDTH = 21"
definition MAZE_HEIGHT :: int where "MAZE_HEIGHT = 21"
definition START_X :: int where "START_X = 1"
definition START_Y :: int where "START_Y = 1"
definition GOAL_X :: int where "GOAL_X = MAZE_WIDTH - 2"
definition GOAL_Y :: int where "GOAL_Y = MAZE_HEIGHT - 2"

subsection \<open>Array reads and writes\<close>

text \<open>\<^verbatim>\<open>arr[i]\<close> for an integer \<open>i\<close>: \<open>None\<close> is \<^verbatim>\<open>undefined\<close>.\<close>

definition at :: "'a list \<Rightarrow> int \<Rightarrow> 'a option" where
  "at arr i = (if 0 \<le> i \<and> i < int (length arr) then Some (arr ! nat i) else None)"

text \<open>\<^verbatim>\<open>maze[y]?.[x]\<close>: \<^verbatim>\<open>undefined\<close> when the row is missing, and otherwise the
  element of the row, \<^verbatim>\<open>undefined\<close> for an empty slot or outside the row.\<close>

definition peek :: "maze \<Rightarrow> int \<Rightarrow> int \<Rightarrow> cell option" where
  "peek maze y x =
     (case at maze y of
        None \<Rightarrow> None
      | Some r \<Rightarrow> (case at r x of None \<Rightarrow> None | Some v \<Rightarrow> v))"

text \<open>\<^verbatim>\<open>r[i] = v\<close> for \<open>i \<ge> 0\<close>: inside the array the element is replaced, beyond its
  length the array grows and the slots in between stay empty.\<close>

definition store :: "row \<Rightarrow> nat \<Rightarrow> cell \<Rightarrow> row" where
  "store r i v =
     (if i < length r then r[i := Some v]
      else r @ replicate (i - length r) None @ [Some v])"

text \<open>\<^verbatim>\<open>maze[y][x] = v\<close>: a missing row throws; the rows are separate arrays (each one is
  built by its own call of the \<^verbatim>\<open>Array.from\<close> callback), so only row \<open>y\<close> changes.\<close>

definition put :: "maze \<Rightarrow> int \<Rightarrow> int \<Rightarrow> cell \<Rightarrow> error + maze" where
  "put maze y x v =
     (case at maze y of
        None \<Rightarrow> Inl TypeError
      | Some r \<Rightarrow>
          if x < 0 then Inl NegativeIndex
          else Inr (maze[nat y := store r (nat x) v]))"

text \<open>
  \<^verbatim>\<open>Array.from({ length: len }, () => item)\<close> for an integer \<open>len\<close>. A length of \<open>2\<^sup>3\<^sup>2\<close> or
  more throws a RangeError before any element is made. A length below 1, negative ones
  included, gives the empty array, and the callback is never called. Otherwise the
  callback fills every slot, and when it throws the call throws. The callbacks of the
  source take no argument and return the same value at every call; \<open>item\<close> is that
  value, or what the callback throws. Memory is taken to suffice for every array below
  \<open>2\<^sup>3\<^sup>2\<close> elements.
\<close>

definition Array_from :: "int \<Rightarrow> error + 'a \<Rightarrow> error + 'a list" where
  "Array_from len item =
     (if 2 ^ 32 \<le> len then Inl RangeError
      else if len \<le> 0 then Inr []
      else (case item of Inl e \<Rightarrow> Inl e | Inr v \<Rightarrow> Inr (replicate (nat len) v)))"

subsection \<open>generateMaze\<close>

text \<open>The array \<^verbatim>\<open>directions\<close> as it is written in the source.\<close>

definition directions :: "(int \<times> int) list" where
  "directions = [(2, 0), (- 2, 0), (0, 2), (0, - 2)]"

text \<open>
  The state of the carving loop. \<open>maze\<close> and \<open>stack\<close> are the variables of the source;
  the head of the list \<open>stack\<close> is the end of the JavaScript array, where \<^verbatim>\<open>push\<close> and
  \<^verbatim>\<open>pop\<close> work. The other two fields are not in the source and change nothing in the
  maze or the stack: \<open>pops\<close> counts the completed \<^verbatim>\<open>stack.pop()\<close> calls (it tells which
  call of \<^verbatim>\<open>shuffle\<close> is next), and \<open>pushed\<close> lists every coordinate that was ever put
  on the stack, latest first.
\<close>

record carving =
  maze :: maze
  stack :: "coord list"
  pops :: nat
  pushed :: "coord list"

text \<open>
  The body of the \<^verbatim>\<open>forEach\<close> callback for the popped cell \<open>(x, y)\<close> and one direction.
  \<^verbatim>\<open>dx / 2\<close> is exact for the entries of \<open>directions\<close>.
\<close>

fun visit :: "int \<Rightarrow> int \<Rightarrow> int \<times> int \<Rightarrow> carving \<Rightarrow> error + carving" where
  "visit x y (dx, dy) s =
     (let nx = x + dx; ny = y + dy in
      if peek (maze s) ny nx = Some Wall then
        (case put (maze s) ny nx Path of
           Inl e \<Rightarrow> Inl e
         | Inr m1 \<Rightarrow>
             (case put m1 (y + dy div 2) (x + dx div 2) Path of
                Inl e \<Rightarrow> Inl e
              | Inr m2 \<Rightarrow>
                  Inr (s\<lparr>maze := m2, stack := (nx, ny) # stack s,
                          pushed := (nx, ny) # pushed s\<rparr>)))
      else Inr s)"

text \<open>\<^verbatim>\<open>arr.forEach(f)\<close> with a callback that may throw.\<close>

fun forEach :: "('a \<Rightarrow> 's \<Rightarrow> error + 's) \<Rightarrow> 'a list \<Rightarrow> 's \<Rightarrow> error + 's" where
  "forEach f [] s = Inr s"
| "forEach f (a # as) s = (case f a s of Inl e \<Rightarrow> Inl e | Inr s' \<Rightarrow> forEach f as s')"

text \<open>
  One pass of the \<^verbatim>\<open>while\<close> body on a non-empty stack: pop, then visit the directions in
  the order \<open>ds\<close> that \<^verbatim>\<open>shuffle(directions)\<close> left them in.
\<close>

fun pass :: "(int \<times> int) list \<Rightarrow> carving \<Rightarrow> error + carving" where
  "pass ds s =
     (case stack s of
        [] \<Rightarrow> Inr s
      | (x, y) # rest \<Rightarrow> forEach (visit x y) ds (s\<lparr>stack := rest, pops := Suc (pops s)\<rparr>))"

text \<open>The number of wall cells of a maze, and the measure that every pass decreases.\<close>

definition walls :: "maze \<Rightarrow> nat" where
  "walls m = sum_list (map (\<lambda>r. length (filter (\<lambda>c. c = Some Wall) r)) m)"

definition work :: "carving \<Rightarrow> nat" where
  "work s = 2 * walls (maze s) + length (stack s)"

text \<open>
  The \<^verbatim>\<open>while (stack.length)\<close> loop. \<open>order k\<close> is the order in which the \<open>k\<close>-th call
  of \<^verbatim>\<open>shuffle(directions)\<close> leaves the array: sorting with a random comparator
  yields some rearrangement of it, and which one is not determined by the program.
\<close>

function carve :: "(nat \<Rightarrow> (int \<times> int) list) \<Rightarrow> carving \<Rightarrow> error + carving" where
  "carve order s =
     (if stack s = [] then Inr s
      else (case pass (order (pops s)) s of
              Inl e \<Rightarrow> Inl e
            | Inr s' \<Rightarrow> carve order s'))"
  by pat_completeness auto

subsection \<open>The generator and the movement handler\<close>

text \<open>
  The state in which the loop of \<^verbatim>\<open>generateMaze(width, height)\<close> ends: the grid of walls
  is built, one \<^verbatim>\<open>Array.from\<close> for the rows and one inside its callback for each row,
  the start is put on the stack, the start cell is opened, and the loop runs.
\<close>

definition carved :: "int \<Rightarrow> int \<Rightarrow> (nat \<Rightarrow> (int \<times> int) list) \<Rightarrow> error + carving" where
  "carved width height order =
     (case Array_from height (Array_from width (Inr (Some Wall))) of
        Inl e \<Rightarrow> Inl e
      | Inr maze0 \<Rightarrow>
          (let stack0 = [(START_X, START_Y)]
           in case put maze0 START_Y START_X Path of
                Inl e \<Rightarrow> Inl e
              | Inr maze1 \<Rightarrow>
                  carve order \<lparr>maze = maze1, stack = stack0, pops = 0, pushed = stack0\<rparr>))"

text \<open>After the loop, \<^verbatim>\<open>maze[GOAL_Y][GOAL_X] = 1\<close>, and the maze is returned.\<close>

definition generateMaze :: "int \<Rightarrow> int \<Rightarrow> (nat \<Rightarrow> (int \<times> int) list) \<Rightarrow> error + maze" where
  "generateMaze width height order =
     (case carved width height order of
        Inl e \<Rightarrow> Inl e
      | Inr s \<Rightarrow> put (maze s) GOAL_Y GOAL_X Path)"

text \<open>The test \<^verbatim>\<open>maze[ny]?.[nx] === 1\<close> of the key handler; \<open>grid\<close> is the component's
  state \<^verbatim>\<open>maze\<close>.\<close>

definition canMoveTo :: "maze \<Rightarrow> int \<Rightarrow> int \<Rightarrow> bool" where
  "canMoveTo grid nx ny \<longleftrightarrow> peek grid ny nx = Some Path"

text \<open>The component's state \<^verbatim>\<open>playerX\<close>, \<^verbatim>\<open>playerY\<close>.\<close>

record player =
  playerX :: int
  playerY :: int

text \<open>The cell that a key aims at: the four \<^verbatim>\<open>if\<close> statements on \<^verbatim>\<open>e.key\<close>.\<close>

definition target :: "player \<Rightarrow> string \<Rightarrow> int \<times> int" where
  "target p key =
     (let nx = playerX p; ny = playerY p;
          ny = (if key = ''ArrowUp'' then ny - 1 else ny);
          ny = (if key = ''ArrowDown'' then ny + 1 else ny);
          nx = (if key = ''ArrowLeft'' then nx - 1 else nx);
          nx = (if key = ''ArrowRight'' then nx + 1 else nx)
      in (nx, ny))"

definition handleKeyDown :: "maze \<Rightarrow> player \<Rightarrow> string \<Rightarrow> player" where
  "handleKeyDown grid p key =
     (case target p key of
        (nx, ny) \<Rightarrow>
          if canMoveTo grid nx ny then p\<lparr>playerX := nx, playerY := ny\<rparr> else p)"

text \<open>
  What is assumed of \<^verbatim>\<open>shuffle\<close>: each call leaves the four directions in the array, in
  some order. Nothing is assumed about which order, so the theorems hold for every
  outcome of \<^verbatim>\<open>Math.random\<close>.
\<close>

definition shuffles :: "(nat \<Rightarrow> (int \<times> int) list) \<Rightarrow> bool" where
  "shuffles order \<longleftrightarrow> (\<forall>k. mset (order k) = mset directions)"

section \<open>Vocabulary of the properties\<close>

text \<open>The coordinates of a grid of width \<open>w\<close> and height \<open>h\<close>.\<close>

definition inb :: "int \<Rightarrow> int \<Rightarrow> int \<Rightarrow> int \<Rightarrow> bool" where
  "inb w h x y \<longleftrightarrow> 0 \<le> x \<and> x < w \<and> 0 \<le> y \<and> y < h"

text \<open>The cells that can be walked to from the start over passages, one step up, down,
  left or right at a time.\<close>

inductive reach :: "maze \<Rightarrow> int \<times> int \<Rightarrow> bool" for m where
  start: "peek m START_Y START_X = Some Path \<Longrightarrow> reach m (START_X, START_Y)"
| step: "reach m (x, y) \<Longrightarrow> \<bar>x' - x\<bar> + \<bar>y' - y\<bar> = 1 \<Longrightarrow> peek m y' x' = Some Path
         \<Longrightarrow> reach m (x', y')"

text \<open>The lattice cells that are open, and the open cells between them.\<close>

definition nodes :: "maze \<Rightarrow> (int \<times> int) set" where
  "nodes m = {(x, y). odd x \<and> odd y \<and> peek m y x = Some Path}"

definition passages :: "maze \<Rightarrow> (int \<times> int) set" where
  "passages m = {(x, y). \<not> (odd x \<and> odd y) \<and> peek m y x = Some Path}"

definition grid_inv :: "int \<Rightarrow> int \<Rightarrow> maze \<Rightarrow> bool" where
  "grid_inv w h m \<longleftrightarrow>
     (\<forall>x y. peek m y x \<noteq> None \<longleftrightarrow> inb w h x y) \<and>
     (\<forall>x y. peek m y x = Some Path \<longrightarrow> odd x \<or> odd y) \<and>
     (\<forall>x y. peek m y x = Some Path \<and> even x \<longrightarrow>
        peek m y (x - 1) = Some Path \<and> peek m y (x + 1) = Some Path) \<and>
     (\<forall>x y. peek m y x = Some Path \<and> even y \<longrightarrow>
        peek m (y - 1) x = Some Path \<and> peek m (y + 1) x = Some Path) \<and>
     peek m 1 1 = Some Path \<and>
     (\<forall>x y. peek m y x = Some Path \<longrightarrow> reach m (x, y))"

text \<open>The effect of a visit that carves, on the cells: \<open>m'\<close> is \<open>m\<close> with the lattice
  cell \<open>(x + dx, y + dy)\<close> and the cell halfway to it opened.\<close>

definition opened :: "maze \<Rightarrow> int \<Rightarrow> int \<Rightarrow> int \<times> int \<Rightarrow> maze \<Rightarrow> bool" where
  "opened m x y d m' \<longleftrightarrow>
     (\<forall>y' x'. peek m' y' x' =
        (if (x' = x + fst d \<and> y' = y + snd d) \<or> (x' = x + fst d div 2 \<and> y' = y + snd d div 2)
         then Some Path else peek m y' x'))"

text \<open>What keeps the writes of one pass from throwing, whatever the dimensions: the
  stack holds non-negative coordinates of existing rows.\<close>

definition sound :: "nat \<Rightarrow> carving \<Rightarrow> bool" where
  "sound n s \<longleftrightarrow>
     length (maze s) = n \<and> (\<forall>(x, y) \<in> set (stack s). 0 \<le> x \<and> 0 \<le> y \<and> y < int n)"

text \<open>
  The invariant of the carving loop: the grid is well shaped, the stack holds open lattice
  cells only, \<open>pushed\<close> lists the open lattice cells without repetition, every pushed
  cell is on the stack or was popped, and there is one open lattice cell more than there
  are open cells between them.
\<close>

definition carve_inv :: "int \<Rightarrow> int \<Rightarrow> carving \<Rightarrow> bool" where
  "carve_inv w h s \<longleftrightarrow>
     grid_inv w h (maze s) \<and>
     set (stack s) \<subseteq> set (pushed s) \<and>
     set (pushed s) = nodes (maze s) \<and>
     distinct (pushed s) \<and>
     length (pushed s) = pops s + length (stack s) \<and>
     card (passages (maze s)) + 1 = length (pushed s)"

text \<open>A lattice cell is settled for a set of directions when it has no wall two cells
  away in any of them. During the pass for cell \<open>c\<close>, the directions \<open>D\<close> have been
  visited: \<open>c\<close> is settled for \<open>D\<close>, and every other open lattice cell that is not on the
  stack is settled for all four.\<close>

definition settled :: "maze \<Rightarrow> int \<times> int \<Rightarrow> (int \<times> int) set \<Rightarrow> bool" where
  "settled m c D \<longleftrightarrow> (\<forall>d \<in> D. peek m (snd c + snd d) (fst c + fst d) \<noteq> Some Wall)"

definition pass_inv :: "int \<Rightarrow> int \<Rightarrow> int \<times> int \<Rightarrow> (int \<times> int) set \<Rightarrow> carving \<Rightarrow> bool" where
  "pass_inv w h c D s \<longleftrightarrow>
     carve_inv w h s \<and> c \<in> nodes (maze s) \<and>
     (\<forall>c' \<in> nodes (maze s) - set (stack s).
        settled (maze s) c' (if c' = c then D else set directions))"

definition loop_inv :: "int \<Rightarrow> int \<Rightarrow> carving \<Rightarrow> bool" where
  "loop_inv w h s \<longleftrightarrow>
     carve_inv w h s \<and>
     (\<forall>c \<in> nodes (maze s) - set (stack s). settled (maze s) c (set directions))"

text \<open>What the visits of one pass push, and what they leave of the maze.\<close>

definition pushes ::
    "int \<Rightarrow> int \<Rightarrow> (int \<times> int) list \<Rightarrow> carving \<Rightarrow> carving \<Rightarrow> coord list \<Rightarrow> bool" where
  "pushes x y ds t t' new \<longleftrightarrow>
     stack t' = new @ stack t \<and> length new \<le> length ds \<and> distinct new \<and>
     (\<forall>c \<in> set new.
        (fst c - x, snd c - y) \<in> set ds \<and>
        peek (maze t) (snd c) (fst c) = Some Wall \<and>
        peek (maze t') (snd c) (fst c) = Some Path \<and>
        peek (maze t') (y + (snd c - y) div 2) (x + (fst c - x) div 2) = Some Path)"

text \<open>
  With width 3 the lattice is the single column \<open>x = 1\<close>, and the carving opens it from
  top to bottom whatever the shuffling. This is what \<^verbatim>\<open>generateMaze(3, 21)\<close> returns: the
  write \<^verbatim>\<open>maze[19][19] = 1\<close> has grown row 19 to twenty slots.
\<close>

definition maze_3_21 :: maze where
  "maze_3_21 =
     [[Some Wall, Some Wall, Some Wall]] @
     replicate 18 [Some Wall, Some Path, Some Wall] @
     [[Some Wall, Some Path, Some Wall] @ replicate 16 None @ [Some Path],
      [Some Wall, Some Wall, Some Wall]]"

text \<open>The state in which the loop of \<^verbatim>\<open>generateMaze(3, 21)\<close> ends, with the directions
  visited in the order of the source.\<close>

definition carved_3_21 :: carving where
  "carved_3_21 =
     \<lparr>maze = [[Some Wall, Some Wall, Some Wall]] @
             replicate 19 [Some Wall, Some Path, Some Wall] @
             [[Some Wall, Some Wall, Some Wall]],
      stack = [], pops = 10,
      pushed = [(1, 19), (1, 17), (1, 15), (1, 13), (1, 11), (1, 9), (1, 7), (1, 5), (1, 3),
                (1, 1)]\<rparr>"

section \<open>Reads, writes and termination\<close>

subsection \<open>Reads after writes\<close>

lemma at_Some_iff: "at arr i = Some v \<longleftrightarrow> 0 \<le> i \<and> i < int (length arr) \<and> arr ! nat i = v"
  by (auto simp: at_def)

lemma at_None_iff: "at arr i = None \<longleftrightarrow> i < 0 \<or> int (length arr) \<le> i"
  by (auto simp: at_def)

lemma length_store: "length (store r i v) = max (length r) (Suc i)"
  by (auto simp: store_def)

lemma nth_store:
  "j < length (store r i v) \<Longrightarrow>
   store r i v ! j = (if j = i then Some v else if j < length r then r ! j else None)"
  by (auto simp: store_def nth_append nth_list_update)

lemma at_store:
  "0 \<le> x \<Longrightarrow> (case at (store r (nat x) v) x' of None \<Rightarrow> None | Some c \<Rightarrow> c) =
     (if x' = x then Some v else (case at r x' of None \<Rightarrow> None | Some c \<Rightarrow> c))"
proof (cases "0 \<le> x' \<and> x' < int (length (store r (nat x) v))")
  case True
  assume "0 \<le> x"
  with True show ?thesis
    by (auto simp: at_def nth_store length_store)
next
  case False
  assume "0 \<le> x"
  with False show ?thesis
    by (auto simp: at_def length_store)
qed

lemma put_Inr_iff:
  "(\<exists>m'. put m y x v = Inr m') \<longleftrightarrow> 0 \<le> y \<and> y < int (length m) \<and> 0 \<le> x"
  by (auto simp: put_def at_def)

lemma put_length: "put m y x v = Inr m' \<Longrightarrow> length m' = length m"
  by (auto simp: put_def split: option.splits if_splits)

lemma peek_put:
  assumes "put m y x v = Inr m'"
  shows "peek m' y' x' = (if y' = y \<and> x' = x then Some v else peek m y' x')"
proof -
  from assms have y: "0 \<le> y" "y < int (length m)" and x: "0 \<le> x"
    and m': "m' = m[nat y := store (m ! nat y) (nat x) v]"
    by (auto simp: put_def at_def split: if_splits)
  show ?thesis
  proof (cases "y' = y")
    case True
    with y have "at m' y' = Some (store (m ! nat y) (nat x) v)" "at m y' = Some (m ! nat y)"
      by (auto simp: m' at_def)
    then show ?thesis
      using True at_store [OF x, of "m ! nat y" v x'] by (simp add: peek_def)
  next
    case False
    with y have "0 \<le> y' \<Longrightarrow> nat y' \<noteq> nat y"
      by simp
    then have "at m' y' = at m y'"
      by (auto simp: m' at_def nth_list_update)
    with False show ?thesis by (simp add: peek_def)
  qed
qed

subsection \<open>Termination of the carving loop\<close>

lemma filter_store_le:
  "length (filter (\<lambda>c. c = Some Wall) (store r i Path)) \<le> length (filter (\<lambda>c. c = Some Wall) r)"
proof (cases "i < length r")
  case True
  then have "r = take i r @ r ! i # drop (Suc i) r"
    by (simp add: id_take_nth_drop)
  then have "filter (\<lambda>c. c = Some Wall) r =
      filter (\<lambda>c. c = Some Wall) (take i r @ r ! i # drop (Suc i) r)"
    by simp
  then have "length (filter (\<lambda>c. c = Some Wall) r) =
      length (filter (\<lambda>c. c = Some Wall) (take i r)) + (if r ! i = Some Wall then 1 else 0)
      + length (filter (\<lambda>c. c = Some Wall) (drop (Suc i) r))"
    by (simp only: filter_append filter.simps length_append) simp
  moreover from True have "store r i Path = take i r @ Some Path # drop (Suc i) r"
    by (simp add: store_def upd_conv_take_nth_drop)
  ultimately show ?thesis by simp
next
  case False
  then show ?thesis by (simp add: store_def)
qed

lemma filter_store_less:
  assumes "i < length r" "r ! i = Some Wall"
  shows "length (filter (\<lambda>c. c = Some Wall) (store r i Path)) < length (filter (\<lambda>c. c = Some Wall) r)"
proof -
  from assms(1) have "r = take i r @ r ! i # drop (Suc i) r"
    by (simp add: id_take_nth_drop)
  then have "filter (\<lambda>c. c = Some Wall) r =
      filter (\<lambda>c. c = Some Wall) (take i r @ r ! i # drop (Suc i) r)"
    by simp
  then have "length (filter (\<lambda>c. c = Some Wall) r) =
      length (filter (\<lambda>c. c = Some Wall) (take i r)) + 1
      + length (filter (\<lambda>c. c = Some Wall) (drop (Suc i) r))"
    using assms(2) by (simp only: filter_append filter.simps length_append) simp
  moreover from assms(1) have "store r i Path = take i r @ Some Path # drop (Suc i) r"
    by (simp add: store_def upd_conv_take_nth_drop)
  ultimately show ?thesis by simp
qed

lemma walls_update:
  assumes "k < length m"
  shows "walls (m[k := r]) + length (filter (\<lambda>c. c = Some Wall) (m ! k)) =
         walls m + length (filter (\<lambda>c. c = Some Wall) r)"
proof -
  let ?f = "\<lambda>r. length (filter (\<lambda>c. c = Some Wall) r)"
  from assms have "m = take k m @ m ! k # drop (Suc k) m"
    by (simp add: id_take_nth_drop)
  then have "walls m = walls (take k m @ m ! k # drop (Suc k) m)"
    by simp
  then have "walls m = walls (take k m) + ?f (m ! k) + walls (drop (Suc k) m)"
    by (simp add: walls_def)
  moreover from assms have "m[k := r] = take k m @ r # drop (Suc k) m"
    by (simp add: upd_conv_take_nth_drop)
  then have "walls (m[k := r]) = walls (take k m) + ?f r + walls (drop (Suc k) m)"
    by (simp add: walls_def)
  ultimately show ?thesis by simp
qed

lemma walls_put_le: "put m y x Path = Inr m' \<Longrightarrow> walls m' \<le> walls m"
proof -
  assume a: "put m y x Path = Inr m'"
  then have y: "0 \<le> y" "y < int (length m)" and m': "m' = m[nat y := store (m ! nat y) (nat x) Path]"
    by (auto simp: put_def at_def split: if_splits)
  from y have "nat y < length m" by simp
  from walls_update [OF this, of "store (m ! nat y) (nat x) Path"]
    filter_store_le [of "m ! nat y" "nat x"]
  show ?thesis by (simp add: m')
qed

lemma walls_put_less:
  assumes "put m y x Path = Inr m'" "peek m y x = Some Wall"
  shows "walls m' < walls m"
proof -
  from assms(1) have y: "0 \<le> y" "y < int (length m)" and x: "0 \<le> x"
    and m': "m' = m[nat y := store (m ! nat y) (nat x) Path]"
    by (auto simp: put_def at_def split: if_splits)
  from y have k: "nat y < length m" by simp
  from assms(2) y have "nat x < length (m ! nat y)" "m ! nat y ! nat x = Some Wall"
    by (auto simp: peek_def at_def split: if_splits option.splits)
  from filter_store_less [OF this] walls_update [OF k, of "store (m ! nat y) (nat x) Path"]
  show ?thesis by (simp add: m')
qed

lemma visit_work: "visit x y d s = Inr s' \<Longrightarrow> work s' \<le> work s"
proof -
  assume a: "visit x y d s = Inr s'"
  obtain dx dy where d: "d = (dx, dy)" by (cases d)
  show ?thesis
  proof (cases "peek (maze s) (y + dy) (x + dx) = Some Wall")
    case True
    with a d obtain m1 m2 where
      m1: "put (maze s) (y + dy) (x + dx) Path = Inr m1" and
      m2: "put m1 (y + dy div 2) (x + dx div 2) Path = Inr m2" and
      s': "s' = s\<lparr>maze := m2, stack := (x + dx, y + dy) # stack s,
                  pushed := (x + dx, y + dy) # pushed s\<rparr>"
      by (auto simp: Let_def split: sum.splits)
    from walls_put_less [OF m1 True] walls_put_le [OF m2]
    show ?thesis by (simp add: s' work_def)
  next
    case False
    with a d show ?thesis by (simp add: Let_def)
  qed
qed

lemma forEach_visit_work: "forEach (visit x y) ds s = Inr s' \<Longrightarrow> work s' \<le> work s"
proof (induction ds arbitrary: s)
  case Nil
  then show ?case by simp
next
  case (Cons d ds)
  then obtain s1 where s1: "visit x y d s = Inr s1" and r: "forEach (visit x y) ds s1 = Inr s'"
    by (auto split: sum.splits)
  from visit_work [OF s1] Cons.IH [OF r] show ?case by simp
qed

lemma pass_work:
  assumes "stack s \<noteq> []" "pass ds s = Inr s'"
  shows "work s' < work s"
proof -
  from assms(1) obtain x y rest where st: "stack s = (x, y) # rest"
    by (cases "stack s") auto
  with assms(2) have "forEach (visit x y) ds (s\<lparr>stack := rest, pops := Suc (pops s)\<rparr>) = Inr s'"
    by simp
  from forEach_visit_work [OF this] show ?thesis
    by (simp add: work_def st)
qed

termination carve
  by (relation "measure (\<lambda>(order, s). work s)") (auto dest: pass_work)

section \<open>The navigation guard\<close>

text \<open>
  Claim C5. For every grid and every candidate coordinate \<open>(x, y)\<close> the guard
  \<^verbatim>\<open>maze[ny]?.[nx] === 1\<close> is true exactly when row \<open>y\<close> exists, column \<open>x\<close> lies inside that
  row and the cell there is a passage. For every coordinate outside the grid, negative
  indices included, it is false; the read has no failing branch, because \<^verbatim>\<open>?.\<close> stops
  at a missing row.
\<close>

theorem canMoveTo_iff_in_bounds_Path:
  "(canMoveTo grid x y \<longleftrightarrow>
      0 \<le> y \<and> y < int (length grid) \<and> 0 \<le> x \<and> x < int (length (grid ! nat y))
      \<and> grid ! nat y ! nat x = Some Path)
   \<and> (y < 0 \<or> int (length grid) \<le> y \<or> x < 0 \<or> int (length (grid ! nat y)) \<le> x
        \<longrightarrow> canMoveTo grid x y = False)"
  by (auto simp: canMoveTo_def peek_def at_def split: option.splits)

theorem canMoveTo_iff_in_bounds_Path_witness:
  "canMoveTo [[Some Wall, Some Wall, Some Wall], [Some Wall, Some Path, Some Wall]] 1 1
   \<and> canMoveTo [[Some Wall, Some Wall, Some Wall], [Some Wall, Some Path, Some Wall]] 1 0 = False
   \<and> canMoveTo [[Some Wall, Some Wall, Some Wall], [Some Wall, Some Path, Some Wall]] (- 1) 1 = False
   \<and> canMoveTo [[Some Wall, Some Wall, Some Wall], [Some Wall, Some Path, Some Wall]] 1 (- 1) = False
   \<and> canMoveTo [[Some Wall, Some Wall, Some Wall], [Some Wall, Some Path, Some Wall]] 3 1 = False
   \<and> canMoveTo [[Some Wall, Some Wall, Some Wall], [Some Wall, Some Path, Some Wall]] 1 2 = False"
  using canMoveTo_iff_in_bounds_Path
      [of "[[Some Wall, Some Wall, Some Wall], [Some Wall, Some Path, Some Wall]]" 1 1]
    canMoveTo_iff_in_bounds_Path
      [of "[[Some Wall, Some Wall, Some Wall], [Some Wall, Some Path, Some Wall]]" 1 0]
    canMoveTo_iff_in_bounds_Path
      [of "[[Some Wall, Some Wall, Some Wall], [Some Wall, Some Path, Some Wall]]" "- 1" 1]
    canMoveTo_iff_in_bounds_Path
      [of "[[Some Wall, Some Wall, Some Wall], [Some Wall, Some Path, Some Wall]]" 1 "- 1"]
    canMoveTo_iff_in_bounds_Path
      [of "[[Some Wall, Some Wall, Some Wall], [Some Wall, Some Path, Some Wall]]" 3 1]
    canMoveTo_iff_in_bounds_Path
      [of "[[Some Wall, Some Wall, Some Wall], [Some Wall, Some Path, Some Wall]]" 1 2]
  by simp

section \<open>The carving loop\<close>

subsection \<open>The effect of one visit\<close>

lemma shuffles_set: "shuffles order \<Longrightarrow> set (order k) = set directions"
  unfolding shuffles_def by (metis set_mset_mset)

lemma in_directions:
  "(dx, dy) \<in> set directions \<longleftrightarrow> (dx = 2 \<and> dy = 0) \<or> (dx = - 2 \<and> dy = 0) \<or> (dx = 0 \<and> dy = 2) \<or> (dx = 0 \<and> dy = - 2)"
  by (auto simp: directions_def)

lemma visit_effect:
  assumes "visit x y (dx, dy) s = Inr s'"
  shows "(peek (maze s) (y + dy) (x + dx) \<noteq> Some Wall \<and> s' = s) \<or>
         (peek (maze s) (y + dy) (x + dx) = Some Wall
          \<and> stack s' = (x + dx, y + dy) # stack s
          \<and> pushed s' = (x + dx, y + dy) # pushed s
          \<and> pops s' = pops s
          \<and> length (maze s') = length (maze s)
          \<and> (\<forall>y' x'. peek (maze s') y' x' =
                (if (x' = x + dx \<and> y' = y + dy) \<or> (x' = x + dx div 2 \<and> y' = y + dy div 2)
                 then Some Path else peek (maze s) y' x')))"
proof (cases "peek (maze s) (y + dy) (x + dx) = Some Wall")
  case True
  with assms obtain m1 m2 where
    m1: "put (maze s) (y + dy) (x + dx) Path = Inr m1" and
    m2: "put m1 (y + dy div 2) (x + dx div 2) Path = Inr m2" and
    s': "s' = s\<lparr>maze := m2, stack := (x + dx, y + dy) # stack s,
                pushed := (x + dx, y + dy) # pushed s\<rparr>"
    by (auto simp: Let_def split: sum.splits)
  have "peek m2 y' x' =
      (if (x' = x + dx \<and> y' = y + dy) \<or> (x' = x + dx div 2 \<and> y' = y + dy div 2)
       then Some Path else peek (maze s) y' x')" for y' x'
    by (simp add: peek_put [OF m2] peek_put [OF m1])
  with True put_length [OF m1] put_length [OF m2] show ?thesis
    by (simp add: s')
next
  case False
  with assms show ?thesis by (simp add: Let_def)
qed

subsection \<open>Invariants of the loops\<close>

lemma forEach_invariant:
  assumes "Q D s"
    and "\<And>D d s. Q D s \<Longrightarrow> d \<in> set ds \<Longrightarrow> \<exists>s'. f d s = Inr s' \<and> Q (insert d D) s'"
  shows "\<exists>s'. forEach f ds s = Inr s' \<and> Q (D \<union> set ds) s'"
  using assms
proof (induction ds arbitrary: D s)
  case Nil
  then show ?case by simp
next
  case (Cons d ds)
  from Cons.prems obtain s1 where s1: "f d s = Inr s1" "Q (insert d D) s1"
    by (meson list.set_intros(1))
  have "\<exists>s'. forEach f ds s1 = Inr s' \<and> Q (insert d D \<union> set ds) s'"
  proof (rule Cons.IH [OF s1(2)])
    fix D' d' s'
    assume "Q D' s'" "d' \<in> set ds"
    then show "\<exists>s''. f d' s' = Inr s'' \<and> Q (insert d' D') s''"
      using Cons.prems(2) [of D' s' d'] by simp
  qed
  with s1 show ?case by simp
qed

lemma carve_invariant:
  assumes "I s"
    and "\<And>s. I s \<Longrightarrow> stack s \<noteq> [] \<Longrightarrow> \<exists>s'. pass (order (pops s)) s = Inr s' \<and> I s'"
  shows "\<exists>t. carve order s = Inr t \<and> I t \<and> stack t = []"
  using assms(1)
proof (induction "work s" arbitrary: s rule: less_induct)
  case less
  show ?case
  proof (cases "stack s = []")
    case True
    with less.prems show ?thesis by simp
  next
    case False
    from assms(2) [OF less.prems False] obtain s' where
      s': "pass (order (pops s)) s = Inr s'" "I s'"
      by blast
    from pass_work [OF False s'(1)] have "work s' < work s" .
    from less.hyps [OF this s'(2)] obtain t where "carve order s' = Inr t" "I t" "stack t = []"
      by blast
    with False s'(1) show ?thesis
      by (subst carve.simps) simp
  qed
qed

lemma visit_sound:
  assumes "sound n s" "0 \<le> x" "0 \<le> y" "y < int n" "d \<in> set directions"
  shows "\<exists>s'. visit x y d s = Inr s' \<and> sound n s'"
proof -
  obtain dx dy where d: "d = (dx, dy)" by (cases d)
  from assms(1) have len: "length (maze s) = n"
    by (simp add: sound_def)
  show ?thesis
  proof (cases "peek (maze s) (y + dy) (x + dx) = Some Wall")
    case True
    then have ny: "0 \<le> y + dy" "y + dy < int n" and nx: "0 \<le> x + dx"
      using len by (auto simp: peek_def at_def split: if_splits option.splits)
    from ny nx len obtain m1 where m1: "put (maze s) (y + dy) (x + dx) Path = Inr m1"
      using put_Inr_iff [of "maze s" "y + dy" "x + dx" Path] by auto
    from assms(5) d have "0 \<le> y + dy div 2 \<and> y + dy div 2 < int n \<and> 0 \<le> x + dx div 2"
      using ny nx assms(2-4) by (auto simp: in_directions)
    with put_length [OF m1] len obtain m2 where
      m2: "put m1 (y + dy div 2) (x + dx div 2) Path = Inr m2"
      using put_Inr_iff [of m1 "y + dy div 2" "x + dx div 2" Path] by auto
    from True m1 m2 have "visit x y d s =
        Inr (s\<lparr>maze := m2, stack := (x + dx, y + dy) # stack s,
               pushed := (x + dx, y + dy) # pushed s\<rparr>)"
      by (simp add: d Let_def)
    moreover have "sound n (s\<lparr>maze := m2, stack := (x + dx, y + dy) # stack s,
               pushed := (x + dx, y + dy) # pushed s\<rparr>)"
      using assms(1) ny nx put_length [OF m1] put_length [OF m2]
      by (auto simp: sound_def)
    ultimately show ?thesis by blast
  next
    case False
    then have "visit x y d s = Inr s"
      by (simp add: d Let_def)
    with assms(1) show ?thesis by blast
  qed
qed

lemma pass_sound:
  assumes "sound n s" "stack s \<noteq> []" "set ds \<subseteq> set directions"
  shows "\<exists>s'. pass ds s = Inr s' \<and> sound n s'"
proof -
  from assms(2) obtain x y rest where st: "stack s = (x, y) # rest"
    by (cases "stack s") auto
  with assms(1) have xy: "0 \<le> x" "0 \<le> y" "y < int n"
    and s0: "sound n (s\<lparr>stack := rest, pops := Suc (pops s)\<rparr>)"
    by (auto simp: sound_def)
  have "\<exists>s'. forEach (visit x y) ds (s\<lparr>stack := rest, pops := Suc (pops s)\<rparr>) = Inr s'
      \<and> (\<lambda>D. sound n) ({} \<union> set ds) s'"
    by (rule forEach_invariant [where Q = "\<lambda>D. sound n"]) (use s0 assms(3) xy visit_sound in auto)
  with st show ?thesis by simp
qed

lemma carve_sound:
  assumes "shuffles order" "sound n s"
  shows "\<exists>t. carve order s = Inr t \<and> sound n t \<and> stack t = []"
  by (rule carve_invariant [where I = "sound n"])
    (use assms pass_sound shuffles_set in auto)

text \<open>The grid of walls, and the dimensions for which it cannot be built.\<close>

lemma Array_from_grid:
  "0 < h \<Longrightarrow> h < 2 ^ 32 \<Longrightarrow> w < 2 ^ 32 \<Longrightarrow>
   Array_from h (Array_from w (Inr c)) = Inr (replicate (nat h) (replicate (nat w) c))"
  by (simp add: Array_from_def)

lemma Array_from_grid_cases:
  "Array_from h (Array_from w (Inr c)) =
     (if 2 ^ 32 \<le> h then Inl RangeError
      else if h \<le> 0 then Inr []
      else if 2 ^ 32 \<le> w then Inl RangeError
      else Inr (replicate (nat h) (replicate (nat w) c)))"
  by (simp add: Array_from_def)

lemma carved_cases:
  assumes "shuffles order"
  shows "if 2 ^ 32 \<le> height then carved width height order = Inl RangeError
         else if height \<le> 0 then carved width height order = Inl TypeError
         else if 2 ^ 32 \<le> width then carved width height order = Inl RangeError
         else if height < 2 then carved width height order = Inl TypeError
         else (\<exists>s. carved width height order = Inr s \<and> length (maze s) = nat height \<and> stack s = [])"
proof (cases "2 \<le> height \<and> height < 2 ^ 32 \<and> width < 2 ^ 32")
  case False
  then show ?thesis
    by (auto simp: carved_def Array_from_grid_cases put_def at_def START_Y_def START_X_def)
next
  case True
  let ?m0 = "replicate (nat height) (replicate (nat width) (Some Wall))"
  from True have m0: "Array_from height (Array_from width (Inr (Some Wall))) = Inr ?m0"
    by (simp add: Array_from_grid)
  from True obtain m1 where m1: "put ?m0 START_Y START_X Path = Inr m1"
    using put_Inr_iff [of ?m0 START_Y START_X Path]
    by (auto simp: START_Y_def START_X_def)
  from put_length [OF m1] True
  have "sound (nat height) \<lparr>maze = m1, stack = [(START_X, START_Y)], pops = 0, pushed = [(START_X, START_Y)]\<rparr>"
    by (simp add: sound_def START_X_def START_Y_def)
  from carve_sound [OF assms this] m0 m1 True show ?thesis
    by (auto simp: carved_def Let_def sound_def)
qed

lemma generateMaze_result:
  assumes "shuffles order"
  shows "if 2 ^ 32 \<le> height then generateMaze width height order = Inl RangeError
         else if height \<le> 0 then generateMaze width height order = Inl TypeError
         else if 2 ^ 32 \<le> width then generateMaze width height order = Inl RangeError
         else if height < 20 then generateMaze width height order = Inl TypeError
         else (\<exists>g. generateMaze width height order = Inr g)"
proof (cases "2 \<le> height \<and> height < 2 ^ 32 \<and> width < 2 ^ 32")
  case False
  with carved_cases [OF assms, of height width] show ?thesis
    by (auto simp: generateMaze_def split: if_splits)
next
  case True
  with carved_cases [OF assms, of height width] obtain s where
    s: "carved width height order = Inr s" "length (maze s) = nat height"
    by (auto split: if_splits)
  show ?thesis
  proof (cases "height < 20")
    case True
    with s \<open>2 \<le> height \<and> height < 2 ^ 32 \<and> width < 2 ^ 32\<close> show ?thesis
      by (simp add: generateMaze_def put_def at_def GOAL_Y_def GOAL_X_def MAZE_HEIGHT_def MAZE_WIDTH_def)
  next
    case False
    with s True put_Inr_iff [of "maze s" GOAL_Y GOAL_X Path] show ?thesis
      by (auto simp: generateMaze_def GOAL_Y_def GOAL_X_def MAZE_HEIGHT_def MAZE_WIDTH_def)
  qed
qed

lemma generateMaze_Inr_bounds:
  assumes "shuffles order" "generateMaze width height order = Inr g"
  shows "20 \<le> height \<and> height < 2 ^ 32 \<and> width < 2 ^ 32"
  using generateMaze_result [OF assms(1), of height width] assms(2)
  by (auto split: if_splits)

section \<open>Dimensions that the generator accepts\<close>

text \<open>
  Claim C6 says that invalid dimensions make the generator fail with a ConfigurationError.
  The source checks nothing: with width 0 and height 20 it returns twenty rows, empty but
  for the two cells it writes at \<open>(1, 1)\<close> and \<open>(19, 19)\<close>.
\<close>

theorem generateMaze_invalid_dimensions_counterexample:
  "generateMaze 0 20 (\<lambda>k. directions) =
     Inr ([[], [None, Some Path]] @ replicate 17 [] @ [replicate 19 None @ [Some Path]])"
  by code_simp

text \<open>
  Claim C6 as amended. The generator does not check its dimensions and has no
  ConfigurationError: invalid dimensions (a width or height that is non-positive, even or
  below 3) are not rejected. For every invalid pair with a height of at least 20 and
  width and height below \<open>2\<^sup>3\<^sup>2\<close>, and every shuffling, the generator returns a maze.
\<close>

theorem generateMaze_returns_for_invalid_dimensions:
  "shuffles order \<Longrightarrow>
   width \<le> 0 \<or> height \<le> 0 \<or> even width \<or> even height \<or> width < 3 \<or> height < 3 \<Longrightarrow>
   20 \<le> height \<Longrightarrow> height < 2 ^ 32 \<Longrightarrow> width < 2 ^ 32 \<Longrightarrow>
   \<exists>g. generateMaze width height order = Inr g"
  using generateMaze_result [of order height width] by (auto split: if_splits)

theorem generateMaze_returns_for_invalid_dimensions_witness:
  "(\<exists>g. generateMaze 0 20 (\<lambda>k. directions) = Inr g)
   \<and> (\<exists>g. generateMaze (- 3) 21 (\<lambda>k. directions) = Inr g)
   \<and> (\<exists>g. generateMaze 22 22 (\<lambda>k. directions) = Inr g)
   \<and> (\<exists>g. generateMaze 1 21 (\<lambda>k. directions) = Inr g)"
  using generateMaze_returns_for_invalid_dimensions [of "\<lambda>k. directions" 0 20]
    generateMaze_returns_for_invalid_dimensions [of "\<lambda>k. directions" "- 3" 21]
    generateMaze_returns_for_invalid_dimensions [of "\<lambda>k. directions" 22 22]
    generateMaze_returns_for_invalid_dimensions [of "\<lambda>k. directions" 1 21]
  by (simp add: shuffles_def)

section \<open>The shape of the carved maze\<close>

lemma reach_Path: "reach m (x, y) \<Longrightarrow> peek m y x = Some Path"
  by (induction "(x, y)" rule: reach.induct) (auto simp: START_X_def START_Y_def)

lemma reach_mono:
  assumes "reach m c" "\<And>x y. peek m y x = Some Path \<Longrightarrow> peek m' y x = Some Path"
  shows "reach m' c"
  using assms(1)
proof (induction rule: reach.induct)
  case start
  then show ?case by (simp add: assms(2) reach.start)
next
  case (step x y x' y')
  then show ?case by (meson assms(2) reach.step)
qed

lemma opened_grid_inv:
  assumes inv: "grid_inv w h m"
    and xy: "odd x" "odd y" "peek m y x = Some Path"
    and d: "d \<in> set directions"
    and wall: "peek m (y + snd d) (x + fst d) = Some Wall"
    and m': "opened m x y d m'"
  shows "grid_inv w h m'"
proof -
  obtain dx dy where [simp]: "d = (dx, dy)" by (cases d)
  from d have dd: "(dx = 2 \<and> dy = 0) \<or> (dx = - 2 \<and> dy = 0) \<or> (dx = 0 \<and> dy = 2) \<or> (dx = 0 \<and> dy = - 2)"
    by (simp add: in_directions)
  from inv have shape: "\<And>x y. peek m y x \<noteq> None \<longleftrightarrow> inb w h x y"
    by (simp add: grid_inv_def)
  from inv have par: "\<And>x y. peek m y x = Some Path \<Longrightarrow> odd x \<or> odd y"
    by (simp add: grid_inv_def)
  from inv have hor: "\<And>x y. peek m y x = Some Path \<Longrightarrow> even x \<Longrightarrow>
        peek m y (x - 1) = Some Path \<and> peek m y (x + 1) = Some Path"
    by (simp add: grid_inv_def)
  from inv have ver: "\<And>x y. peek m y x = Some Path \<Longrightarrow> even y \<Longrightarrow>
        peek m (y - 1) x = Some Path \<and> peek m (y + 1) x = Some Path"
    by (simp add: grid_inv_def)
  from inv have st: "peek m 1 1 = Some Path"
    by (simp add: grid_inv_def)
  from inv have re: "\<And>x y. peek m y x = Some Path \<Longrightarrow> reach m (x, y)"
    by (simp add: grid_inv_def)
  from m' have pk: "\<And>y' x'. peek m' y' x' =
        (if (x' = x + dx \<and> y' = y + dy) \<or> (x' = x + dx div 2 \<and> y' = y + dy div 2)
         then Some Path else peek m y' x')"
    by (simp add: opened_def)
  have mono: "peek m' b a = Some Path" if "peek m b a = Some Path" for a b
    using that by (simp add: pk)
  have in1: "inb w h x y" and in2: "inb w h (x + dx) (y + dy)"
    using shape [of y x] shape [of "y + dy" "x + dx"] xy(3) wall by auto
  then have in3: "inb w h (x + dx div 2) (y + dy div 2)"
    using dd by (auto simp: inb_def)
  have 1: "peek m' b a \<noteq> None \<longleftrightarrow> inb w h a b" for a b
    using in2 in3 shape [of b a] by (auto simp: pk)
  have 2: "odd a \<or> odd b" if "peek m' b a = Some Path" for a b
    using that dd xy(1,2) par [of b a] by (auto simp: pk split: if_splits)
  have 3: "peek m' b (a - 1) = Some Path \<and> peek m' b (a + 1) = Some Path"
    if "peek m' b a = Some Path" "even a" for a b
  proof (cases "(a = x + dx \<and> b = y + dy) \<or> (a = x + dx div 2 \<and> b = y + dy div 2)")
    case True
    with that(2) dd xy(1,2) have "(dx = 2 \<or> dx = - 2) \<and> dy = 0 \<and> a = x + dx div 2 \<and> b = y"
      by auto
    then show ?thesis
      using mono [OF xy(3)] by (auto simp: pk)
  next
    case False
    with that(1) have "peek m b a = Some Path" by (simp add: pk)
    from hor [OF this that(2)] show ?thesis
      using mono by blast
  qed
  have 4: "peek m' (b - 1) a = Some Path \<and> peek m' (b + 1) a = Some Path"
    if "peek m' b a = Some Path" "even b" for a b
  proof (cases "(a = x + dx \<and> b = y + dy) \<or> (a = x + dx div 2 \<and> b = y + dy div 2)")
    case True
    with that(2) dd xy(1,2) have "(dy = 2 \<or> dy = - 2) \<and> dx = 0 \<and> b = y + dy div 2 \<and> a = x"
      by auto
    then show ?thesis
      using mono [OF xy(3)] by (auto simp: pk)
  next
    case False
    with that(1) have "peek m b a = Some Path" by (simp add: pk)
    from ver [OF this that(2)] show ?thesis
      using mono by blast
  qed
  have r0: "reach m' (x, y)"
    using reach_mono [OF re [OF xy(3)]] mono by blast
  have "\<bar>x + dx div 2 - x\<bar> + \<bar>y + dy div 2 - y\<bar> = 1"
    using dd by auto
  from reach.step [OF r0 this] have r1: "reach m' (x + dx div 2, y + dy div 2)"
    by (simp add: pk)
  have "\<bar>x + dx - (x + dx div 2)\<bar> + \<bar>y + dy - (y + dy div 2)\<bar> = 1"
    using dd by auto
  from reach.step [OF r1 this] have r2: "reach m' (x + dx, y + dy)"
    by (simp add: pk)
  have 6: "reach m' (a, b)" if "peek m' b a = Some Path" for a b
  proof (cases "(a = x + dx \<and> b = y + dy) \<or> (a = x + dx div 2 \<and> b = y + dy div 2)")
    case True
    with r1 r2 show ?thesis by auto
  next
    case False
    with that have "peek m b a = Some Path" by (simp add: pk)
    from reach_mono [OF re [OF this]] mono show ?thesis by blast
  qed
  show ?thesis
    unfolding grid_inv_def
  proof (intro conjI allI impI)
    show "peek m' 1 1 = Some Path" by (rule mono [OF st])
  qed (use 1 2 3 4 6 in \<open>simp_all\<close>)
qed

lemma opened_nodes:
  assumes "opened m x y d m'" "odd x" "odd y" "d \<in> set directions"
  shows "nodes m' = insert (x + fst d, y + snd d) (nodes m)"
proof -
  obtain dx dy where [simp]: "d = (dx, dy)" by (cases d)
  from assms(4) have dd: "(dx = 2 \<and> dy = 0) \<or> (dx = - 2 \<and> dy = 0) \<or> (dx = 0 \<and> dy = 2) \<or> (dx = 0 \<and> dy = - 2)"
    by (simp add: in_directions)
  from assms(1) have pk: "\<And>y' x'. peek m' y' x' =
        (if (x' = x + dx \<and> y' = y + dy) \<or> (x' = x + dx div 2 \<and> y' = y + dy div 2)
         then Some Path else peek m y' x')"
    by (simp add: opened_def)
  have "odd (x + dx) \<and> odd (y + dy) \<and> \<not> (odd (x + dx div 2) \<and> odd (y + dy div 2))"
    using dd assms(2,3) by auto
  then show ?thesis
    unfolding nodes_def by (auto simp: pk)
qed

lemma opened_passages:
  assumes "opened m x y d m'" "odd x" "odd y" "d \<in> set directions"
  shows "passages m' = insert (x + fst d div 2, y + snd d div 2) (passages m)"
proof -
  obtain dx dy where [simp]: "d = (dx, dy)" by (cases d)
  from assms(4) have dd: "(dx = 2 \<and> dy = 0) \<or> (dx = - 2 \<and> dy = 0) \<or> (dx = 0 \<and> dy = 2) \<or> (dx = 0 \<and> dy = - 2)"
    by (simp add: in_directions)
  from assms(1) have pk: "\<And>y' x'. peek m' y' x' =
        (if (x' = x + dx \<and> y' = y + dy) \<or> (x' = x + dx div 2 \<and> y' = y + dy div 2)
         then Some Path else peek m y' x')"
    by (simp add: opened_def)
  have "odd (x + dx) \<and> odd (y + dy) \<and> \<not> (odd (x + dx div 2) \<and> odd (y + dy div 2))"
    using dd assms(2,3) by auto
  then show ?thesis
    unfolding passages_def by (auto simp: pk)
qed

lemma finite_inb: "finite {(x, y). inb w h x y}"
proof -
  have "{(x, y). inb w h x y} \<subseteq> {0..<w} \<times> {0..<h}"
    by (auto simp: inb_def)
  then show ?thesis
    by (rule finite_subset) simp
qed

lemma grid_inv_inb:
  assumes "grid_inv w h m" "peek m y x = Some Path"
  shows "inb w h x y"
proof -
  from assms(1) have "peek m y x \<noteq> None \<longleftrightarrow> inb w h x y"
    by (simp add: grid_inv_def)
  with assms(2) show ?thesis by simp
qed

lemma finite_passages: "grid_inv w h m \<Longrightarrow> finite (passages m)"
  by (rule finite_subset [OF _ finite_inb [of w h]]) (auto simp: passages_def dest: grid_inv_inb)

lemma finite_nodes: "grid_inv w h m \<Longrightarrow> finite (nodes m)"
  by (rule finite_subset [OF _ finite_inb [of w h]]) (auto simp: nodes_def dest: grid_inv_inb)

text \<open>Between an open lattice cell and a walled one the cell is not open.\<close>

lemma halfway_not_Path:
  assumes inv: "grid_inv w h m"
    and xy: "odd x" "odd y"
    and d: "d \<in> set directions"
    and wall: "peek m (y + snd d) (x + fst d) = Some Wall"
  shows "peek m (y + snd d div 2) (x + fst d div 2) \<noteq> Some Path"
proof
  assume p: "peek m (y + snd d div 2) (x + fst d div 2) = Some Path"
  obtain dx dy where [simp]: "d = (dx, dy)" by (cases d)
  from d have dd: "(dx = 2 \<and> dy = 0) \<or> (dx = - 2 \<and> dy = 0) \<or> (dx = 0 \<and> dy = 2) \<or> (dx = 0 \<and> dy = - 2)"
    by (simp add: in_directions)
  from inv have hor: "\<And>x y. peek m y x = Some Path \<Longrightarrow> even x \<Longrightarrow>
        peek m y (x - 1) = Some Path \<and> peek m y (x + 1) = Some Path"
    by (simp add: grid_inv_def)
  from inv have ver: "\<And>x y. peek m y x = Some Path \<Longrightarrow> even y \<Longrightarrow>
        peek m (y - 1) x = Some Path \<and> peek m (y + 1) x = Some Path"
    by (simp add: grid_inv_def)
  from dd show False
  proof (elim disjE conjE)
    assume a: "dx = 2" "dy = 0"
    with p xy have "peek m y (x + 1 + 1) = Some Path"
      using hor [of y "x + 1"] by simp
    moreover have "x + 1 + 1 = x + 2" by simp
    ultimately have "peek m y (x + 2) = Some Path" by (simp only:)
    with wall a show False by simp
  next
    assume a: "dx = - 2" "dy = 0"
    with p xy have "peek m y (x - 1 - 1) = Some Path"
      using hor [of y "x - 1"] by simp
    moreover have "x - 1 - 1 = x + - 2" by simp
    ultimately have "peek m y (x + - 2) = Some Path" by (simp only:)
    with wall a show False by simp
  next
    assume a: "dx = 0" "dy = 2"
    with p xy have "peek m (y + 1 + 1) x = Some Path"
      using ver [of "y + 1" x] by simp
    moreover have "y + 1 + 1 = y + 2" by simp
    ultimately have "peek m (y + 2) x = Some Path" by (simp only:)
    with wall a show False by simp
  next
    assume a: "dx = 0" "dy = - 2"
    with p xy have "peek m (y - 1 - 1) x = Some Path"
      using ver [of "y - 1" x] by simp
    moreover have "y - 1 - 1 = y + - 2" by simp
    ultimately have "peek m (y + - 2) x = Some Path" by (simp only:)
    with wall a show False by simp
  qed
qed

lemma visit_pass_inv:
  assumes inv: "pass_inv w h (x, y) D s" and d: "d \<in> set directions"
  shows "\<exists>s'. visit x y d s = Inr s' \<and> pass_inv w h (x, y) (insert d D) s'"
proof -
  obtain dx dy where dxy: "d = (dx, dy)" by (cases d)
  from inv have ci: "carve_inv w h s" and xyn: "(x, y) \<in> nodes (maze s)"
    and se: "\<And>c'. c' \<in> nodes (maze s) \<Longrightarrow> c' \<notin> set (stack s) \<Longrightarrow>
        settled (maze s) c' (if c' = (x, y) then D else set directions)"
    by (auto simp: pass_inv_def)
  from ci have gi: "grid_inv w h (maze s)" and sub: "set (stack s) \<subseteq> set (pushed s)"
    and pn: "set (pushed s) = nodes (maze s)" and dist: "distinct (pushed s)"
    and len: "length (pushed s) = pops s + length (stack s)"
    and cnt: "card (passages (maze s)) + 1 = length (pushed s)"
    by (auto simp: carve_inv_def)
  from xyn have xy: "odd x" "odd y" "peek (maze s) y x = Some Path"
    by (auto simp: nodes_def)
  have rows: "0 \<le> a \<and> 0 \<le> b \<and> b < int (length (maze s))" if "peek (maze s) b a = Some Path" for a b
    using that by (auto simp: peek_def at_def split: if_splits option.splits)
  have "sound (length (maze s)) s"
    unfolding sound_def using sub pn rows by (auto simp: nodes_def)
  from visit_sound [OF this _ _ _ d, of x y] rows [OF xy(3)]
  obtain s' where s': "visit x y d s = Inr s'" by blast
  from visit_effect [OF s' [unfolded dxy]]
  consider (same) "peek (maze s) (y + dy) (x + dx) \<noteq> Some Wall" "s' = s"
    | (push) "peek (maze s) (y + dy) (x + dx) = Some Wall"
      "stack s' = (x + dx, y + dy) # stack s" "pushed s' = (x + dx, y + dy) # pushed s"
      "pops s' = pops s" "opened (maze s) x y d (maze s')"
    by (auto simp: opened_def dxy)
  then have "pass_inv w h (x, y) (insert d D) s'"
  proof cases
    case same
    have "settled (maze s) c' (if c' = (x, y) then insert d D else set directions)"
      if "c' \<in> nodes (maze s)" "c' \<notin> set (stack s)" for c'
      using se [OF that] same(1) by (fastforce simp: settled_def dxy)
    with ci xyn show ?thesis
      by (simp add: pass_inv_def same(2))
  next
    case push
    from push(1) have wall: "peek (maze s) (y + snd d) (x + fst d) = Some Wall"
      by (simp add: dxy)
    have gi': "grid_inv w h (maze s')"
      by (rule opened_grid_inv [OF gi xy d wall push(5)])
    have n': "nodes (maze s') = insert (x + dx, y + dy) (nodes (maze s))"
      using opened_nodes [OF push(5) xy(1,2) d] by (simp add: dxy)
    have p': "passages (maze s') = insert (x + dx div 2, y + dy div 2) (passages (maze s))"
      using opened_passages [OF push(5) xy(1,2) d] by (simp add: dxy)
    have new: "(x + dx, y + dy) \<notin> nodes (maze s)"
      using push(1) by (simp add: nodes_def)
    have "(x + dx div 2, y + dy div 2) \<notin> passages (maze s)"
      using halfway_not_Path [OF gi xy(1,2) d wall] by (simp add: passages_def dxy)
    then have c': "card (passages (maze s')) = Suc (card (passages (maze s)))"
      using finite_passages [OF gi] by (simp add: p')
    have ci': "carve_inv w h s'"
      unfolding carve_inv_def using gi' sub pn dist len cnt new c'
      by (auto simp: push(2-4) n')
    have walls: "peek (maze s) b a = Some Wall" if "peek (maze s') b a = Some Wall" for a b
      using that push(5) by (auto simp: opened_def split: if_splits)
    have now: "peek (maze s') (y + dy) (x + dx) = Some Path"
      using push(5) by (simp add: opened_def dxy)
    have "settled (maze s') c' (if c' = (x, y) then insert d D else set directions)"
      if "c' \<in> nodes (maze s')" "c' \<notin> set (stack s')" for c'
    proof -
      from that have "c' \<in> nodes (maze s)" "c' \<notin> set (stack s)"
        by (auto simp: n' push(2))
      from se [OF this] show ?thesis
        using walls now by (fastforce simp: settled_def dxy)
    qed
    with ci' xyn show ?thesis
      by (auto simp: pass_inv_def n')
  qed
  with s' show ?thesis by blast
qed

lemma pass_loop_inv:
  assumes "loop_inv w h s" "stack s \<noteq> []" "set ds = set directions"
  shows "\<exists>s'. pass ds s = Inr s' \<and> loop_inv w h s'"
proof -
  from assms(2) obtain x y rest where st: "stack s = (x, y) # rest"
    by (cases "stack s") auto
  let ?s0 = "s\<lparr>stack := rest, pops := Suc (pops s)\<rparr>"
  from assms(1) have "pass_inv w h (x, y) {} ?s0"
    by (auto simp: loop_inv_def pass_inv_def carve_inv_def st settled_def)
  then have "\<exists>s'. forEach (visit x y) ds ?s0 = Inr s' \<and> pass_inv w h (x, y) ({} \<union> set ds) s'"
    by (rule forEach_invariant [where Q = "pass_inv w h (x, y)"])
      (use assms(3) visit_pass_inv in auto)
  then obtain s' where "forEach (visit x y) ds ?s0 = Inr s'" "pass_inv w h (x, y) (set directions) s'"
    by (auto simp: assms(3))
  then show ?thesis
    by (auto simp: st loop_inv_def pass_inv_def)
qed

lemma carve_loop_inv:
  assumes "shuffles order" "loop_inv w h s"
  shows "\<exists>t. carve order s = Inr t \<and> loop_inv w h t \<and> stack t = []"
  by (rule carve_invariant [where I = "loop_inv w h"])
    (use assms pass_loop_inv shuffles_set in auto)

lemma peek_replicate:
  "peek (replicate (nat h) (replicate (nat w) c)) y x = (if inb w h x y then c else None)"
  by (auto simp: peek_def at_def inb_def)

lemma carved_loop_inv:
  assumes "shuffles order" "2 \<le> w" "2 \<le> h" "w < 2 ^ 32" "h < 2 ^ 32"
  shows "\<exists>s. carved w h order = Inr s \<and> loop_inv w h s \<and> stack s = []"
proof -
  let ?m0 = "replicate (nat h) (replicate (nat w) (Some Wall))"
  from assms(3-5) have m0: "Array_from h (Array_from w (Inr (Some Wall))) = Inr ?m0"
    by (simp add: Array_from_grid)
  from assms(3) obtain m1 where m1: "put ?m0 START_Y START_X Path = Inr m1"
    using put_Inr_iff [of ?m0 START_Y START_X Path]
    by (auto simp: START_Y_def START_X_def)
  have pk: "peek m1 y x = (if y = 1 \<and> x = 1 then Some Path else if inb w h x y then Some Wall else None)"
    for x y
    using peek_put [OF m1, of y x] by (simp add: peek_replicate START_X_def START_Y_def)
  have in11: "inb w h 1 1"
    using assms(2,3) by (simp add: inb_def)
  have "reach m1 (START_X, START_Y)"
    by (rule reach.start) (simp add: pk START_X_def START_Y_def)
  then have r: "reach m1 (1, 1)"
    by (simp add: START_X_def START_Y_def)
  have gi: "grid_inv w h m1"
    unfolding grid_inv_def using in11 r by (auto simp: pk split: if_splits)
  have n: "nodes m1 = {(1, 1)}"
    by (auto simp: nodes_def pk split: if_splits)
  have p: "passages m1 = {}"
    by (auto simp: passages_def pk split: if_splits)
  let ?s = "\<lparr>maze = m1, stack = [(START_X, START_Y)], pops = 0, pushed = [(START_X, START_Y)]\<rparr>"
  have "loop_inv w h ?s"
    unfolding loop_inv_def carve_inv_def using gi
    by (simp add: n p START_X_def START_Y_def)
  from carve_loop_inv [OF assms(1) this] m1 show ?thesis
    by (simp add: carved_def Let_def m0)
qed

lemma carved_Inr_bounds:
  assumes "shuffles order" "carved w h order = Inr s"
  shows "2 \<le> h \<and> h < 2 ^ 32 \<and> w < 2 ^ 32"
  using carved_cases [OF assms(1), of h w] assms(2)
  by (auto split: if_splits)

text \<open>When the stack is empty, every lattice cell inside the grid is open.\<close>

lemma loop_inv_neighbour:
  assumes "loop_inv w h s" "stack s = []" "odd x" "odd y" "peek (maze s) y x = Some Path"
    and "d \<in> set directions" "inb w h (x + fst d) (y + snd d)"
  shows "peek (maze s) (y + snd d) (x + fst d) = Some Path"
proof -
  from assms(1) have gi: "grid_inv w h (maze s)"
    by (simp add: loop_inv_def carve_inv_def)
  then have "peek (maze s) (y + snd d) (x + fst d) \<noteq> None \<longleftrightarrow> inb w h (x + fst d) (y + snd d)"
    by (simp add: grid_inv_def)
  with assms(7) obtain c where c: "peek (maze s) (y + snd d) (x + fst d) = Some c"
    by auto
  from assms(3-5) have "(x, y) \<in> nodes (maze s) - set (stack s)"
    by (simp add: nodes_def assms(2))
  with assms(1) have "settled (maze s) (x, y) (set directions)"
    unfolding loop_inv_def by blast
  with assms(6) have "peek (maze s) (y + snd d) (x + fst d) \<noteq> Some Wall"
    by (auto simp: settled_def)
  with c show ?thesis by (cases c) auto
qed

lemma lattice_row_open:
  assumes "loop_inv w h s" "stack s = []"
  shows "inb w h (2 * int i + 1) 1 \<Longrightarrow> peek (maze s) 1 (2 * int i + 1) = Some Path"
proof (induction i)
  case 0
  from assms(1) show ?case
    by (simp add: loop_inv_def carve_inv_def grid_inv_def)
next
  case (Suc i)
  from Suc.prems have "inb w h (2 * int i + 1) 1"
    by (simp add: inb_def)
  from Suc.IH [OF this] have p: "peek (maze s) 1 (2 * int i + 1) = Some Path" .
  have "peek (maze s) (1 + snd (2::int, 0::int)) (2 * int i + 1 + fst (2::int, 0::int)) = Some Path"
    by (rule loop_inv_neighbour [OF assms _ _ p])
      (use Suc.prems in \<open>auto simp: directions_def algebra_simps\<close>)
  then show ?case by (simp add: algebra_simps)
qed

lemma lattice_column_open:
  assumes "loop_inv w h s" "stack s = []" "odd x"
  shows "inb w h x (2 * int j + 1) \<Longrightarrow> peek (maze s) (2 * int j + 1) x = Some Path"
proof (induction j)
  case 0
  from assms(3) obtain k where k: "x = 2 * k + 1"
    by (elim oddE)
  with 0 have "0 \<le> k"
    by (simp add: inb_def)
  define i where "i = nat k"
  with \<open>0 \<le> k\<close> have x: "x = 2 * int i + 1"
    by (simp add: k)
  from 0 have "inb w h x 1" by simp
  then have "inb w h (2 * int i + 1) 1"
    by (simp add: x)
  from lattice_row_open [OF assms(1,2) this] show ?case
    by (simp add: x)
next
  case (Suc j)
  from Suc.prems have "inb w h x (2 * int j + 1)"
    by (simp add: inb_def)
  from Suc.IH [OF this] have p: "peek (maze s) (2 * int j + 1) x = Some Path" .
  have "peek (maze s) (2 * int j + 1 + snd (0::int, 2::int)) (x + fst (0::int, 2::int)) = Some Path"
    by (rule loop_inv_neighbour [OF assms(1,2) assms(3) _ p])
      (use Suc.prems in \<open>auto simp: directions_def algebra_simps\<close>)
  then show ?case by (simp add: algebra_simps)
qed

lemma lattice_open:
  assumes "loop_inv w h s" "stack s = []" "odd x" "odd y" "inb w h x y"
  shows "peek (maze s) y x = Some Path"
proof -
  from assms(4) obtain k where k: "y = 2 * k + 1"
    by (elim oddE)
  with assms(5) have "0 \<le> k"
    by (simp add: inb_def)
  define j where "j = nat k"
  with \<open>0 \<le> k\<close> have y: "y = 2 * int j + 1"
    by (simp add: k)
  from assms(5) have "inb w h x (2 * int j + 1)"
    by (simp add: y)
  from lattice_column_open [OF assms(1-3) this] show ?thesis
    by (simp add: y)
qed

text \<open>With odd dimensions, no open cell lies on the border.\<close>

lemma grid_inv_interior:
  assumes gi: "grid_inv w h m" and "odd w" "odd h" and p: "peek m y x = Some Path"
  shows "0 < x \<and> x < w - 1 \<and> 0 < y \<and> y < h - 1"
proof -
  have i: "inb w h x y" by (rule grid_inv_inb [OF gi p])
  have "0 < x \<and> x < w - 1"
  proof (cases "even x")
    case True
    with gi p have "peek m y (x - 1) = Some Path \<and> peek m y (x + 1) = Some Path"
      by (simp add: grid_inv_def)
    then have "inb w h (x - 1) y" "inb w h (x + 1) y"
      using grid_inv_inb [OF gi] by blast+
    then show ?thesis by (simp add: inb_def)
  next
    case False
    with assms(2) have "x \<noteq> w - 1" "x \<noteq> 0" by auto
    with i show ?thesis by (simp add: inb_def)
  qed
  moreover have "0 < y \<and> y < h - 1"
  proof (cases "even y")
    case True
    with gi p have "peek m (y - 1) x = Some Path \<and> peek m (y + 1) x = Some Path"
      by (simp add: grid_inv_def)
    then have "inb w h x (y - 1)" "inb w h x (y + 1)"
      using grid_inv_inb [OF gi] by blast+
    then show ?thesis by (simp add: inb_def)
  next
    case False
    with assms(3) have "y \<noteq> h - 1" "y \<noteq> 0" by auto
    with i show ?thesis by (simp add: inb_def)
  qed
  ultimately show ?thesis by simp
qed

subsection \<open>The returned maze\<close>

lemma put_same: "peek m y x = Some v \<Longrightarrow> put m y x v = Inr m"
proof -
  assume a: "peek m y x = Some v"
  then have y: "0 \<le> y" "y < int (length m)" and x: "0 \<le> x" "x < int (length (m ! nat y))"
    and v: "m ! nat y ! nat x = Some v"
    by (auto simp: peek_def at_def split: if_splits option.splits)
  from x v have "store (m ! nat y) (nat x) v = m ! nat y"
    by (simp add: store_def list_update_same_conv)
  with y x show ?thesis
    by (simp add: put_def at_def)
qed

text \<open>
  What a returned maze looks like, for odd dimensions from 3 on: the loop has ended in a
  state \<open>s\<close> that satisfies the invariant, the height is above 20, and the maze is the
  one of \<open>s\<close> but for the cell \<open>(19, 19)\<close>, which is open.
\<close>

lemma generateMaze_Inr:
  assumes "shuffles order" "2 \<le> w" "2 \<le> h" "generateMaze w h order = Inr g"
  shows "\<exists>s. carved w h order = Inr s \<and> loop_inv w h s \<and> stack s = [] \<and> 20 \<le> h \<and>
           put (maze s) GOAL_Y GOAL_X Path = Inr g \<and>
           (\<forall>y x. peek g y x = (if y = 19 \<and> x = 19 then Some Path else peek (maze s) y x))"
proof -
  from generateMaze_Inr_bounds [OF assms(1,4)] have b: "20 \<le> h" "h < 2 ^ 32" "w < 2 ^ 32"
    by simp_all
  from carved_loop_inv [OF assms(1-3) b(3,2)] obtain s where
    s: "carved w h order = Inr s" "loop_inv w h s" "stack s = []"
    by blast
  with assms(4) have g: "put (maze s) GOAL_Y GOAL_X Path = Inr g"
    by (simp add: generateMaze_def)
  note b(1)
  moreover have "peek g y x = (if y = 19 \<and> x = 19 then Some Path else peek (maze s) y x)" for y x
    using peek_put [OF g, of y x]
    by (simp add: GOAL_Y_def GOAL_X_def MAZE_WIDTH_def MAZE_HEIGHT_def)
  ultimately show ?thesis
    using s g by blast
qed

lemma reach_returned:
  assumes li: "loop_inv w h s" and st: "stack s = []" and odd: "odd w" "odd h"
    and h: "20 \<le> h"
    and g: "\<And>y x. peek g y x = (if y = 19 \<and> x = 19 then Some Path else peek (maze s) y x)"
  shows "reach g (x, y) \<longleftrightarrow> peek (maze s) y x = Some Path"
proof
  from li have gi: "grid_inv w h (maze s)"
    by (simp add: loop_inv_def carve_inv_def)
  have "reach g c \<Longrightarrow> peek (maze s) (snd c) (fst c) = Some Path" for c
  proof (induction rule: reach.induct)
    case start
    from gi show ?case
      by (simp add: grid_inv_def START_X_def START_Y_def)
  next
    case (step a b a' b')
    show ?case
    proof (cases "b' = 19 \<and> a' = 19")
      case False
      with step.hyps(3) show ?thesis by (simp add: g)
    next
      case True
      from step.IH have p: "peek (maze s) b a = Some Path" by simp
      from grid_inv_interior [OF gi odd p] have i: "0 < a \<and> a < w - 1 \<and> 0 < b \<and> b < h - 1" .
      with True step.hyps(2) have "19 < w"
        by auto
      with h odd(2) have "inb w h 19 19"
        by (auto simp: inb_def)
      from lattice_open [OF li st _ _ this] True show ?thesis by simp
    qed
  qed
  from this [of "(x, y)"] show "reach g (x, y) \<Longrightarrow> peek (maze s) y x = Some Path"
    by simp
next
  assume p: "peek (maze s) y x = Some Path"
  from li have "reach (maze s) (x, y)"
    using p by (simp add: loop_inv_def carve_inv_def grid_inv_def)
  then show "reach g (x, y)"
    by (rule reach_mono) (simp add: g)
qed

lemma border_returned:
  assumes "shuffles order" "odd w" "odd h" "3 \<le> w" "3 \<le> h"
    and "generateMaze w h order = Inr g"
    and "inb w h x y" "x = 0 \<or> x = w - 1 \<or> y = 0 \<or> y = h - 1"
  shows "peek g y x = Some Wall"
proof -
  from generateMaze_Inr [OF assms(1) _ _ assms(6)] assms(4,5) obtain s where
    li: "loop_inv w h s" and
    g: "\<And>y x. peek g y x = (if y = 19 \<and> x = 19 then Some Path else peek (maze s) y x)"
    by auto
  from li have gi: "grid_inv w h (maze s)"
    by (simp add: loop_inv_def carve_inv_def)
  from assms(2,3,8) have ne: "\<not> (y = 19 \<and> x = 19)"
    by auto
  from gi assms(7) have "peek (maze s) y x \<noteq> None"
    by (simp add: grid_inv_def)
  then obtain c where c: "peek (maze s) y x = Some c" by auto
  have "c \<noteq> Path"
  proof
    assume "c = Path"
    with c grid_inv_interior [OF gi assms(2,3), of y x] assms(8) show False
      by auto
  qed
  with c ne show ?thesis
    by (cases c) (auto simp: g)
qed

lemma start_goal_returned:
  assumes "shuffles order" "odd w" "odd h" "3 \<le> w" "3 \<le> h"
    and "generateMaze w h order = Inr g"
  shows "peek g 1 1 = Some Path \<and> peek g (h - 2) (w - 2) = Some Path"
proof -
  from generateMaze_Inr [OF assms(1) _ _ assms(6)] assms(4,5) obtain s where
    li: "loop_inv w h s" and st: "stack s = []" and
    g: "\<And>y x. peek g y x = (if y = 19 \<and> x = 19 then Some Path else peek (maze s) y x)"
    by auto
  from li have "peek (maze s) 1 1 = Some Path"
    by (simp add: loop_inv_def carve_inv_def grid_inv_def)
  moreover have "peek (maze s) (h - 2) (w - 2) = Some Path"
    by (rule lattice_open [OF li st]) (use assms(2-5) in \<open>auto simp: inb_def\<close>)
  ultimately show ?thesis
    by (simp add: g)
qed

subsection \<open>A run on a grid of width 3 and height 21\<close>

lemma generateMaze_3_21: "generateMaze 3 21 (\<lambda>k. directions) = Inr maze_3_21"
  by code_simp

lemma shuffles_directions: "shuffles (\<lambda>k. directions)"
  by (simp add: shuffles_def)

section \<open>Properties of the generated maze\<close>

text \<open>
  Claim C3. For every grid that \<open>generateMaze\<close> returns with odd width and height of at
  least 3, whatever the shuffling, every cell of row 0, of row \<open>height - 1\<close>, of column 0
  and of column \<open>width - 1\<close> is a wall.
\<close>

theorem generateMaze_border_is_Wall:
  "odd w \<Longrightarrow> odd h \<Longrightarrow> 3 \<le> w \<Longrightarrow> 3 \<le> h \<Longrightarrow> shuffles order \<Longrightarrow>
   generateMaze w h order = Inr g \<Longrightarrow>
   0 \<le> x \<Longrightarrow> x < w \<Longrightarrow> 0 \<le> y \<Longrightarrow> y < h \<Longrightarrow>
   x = 0 \<or> x = w - 1 \<or> y = 0 \<or> y = h - 1 \<Longrightarrow>
   peek g y x = Some Wall"
  by (rule border_returned [of order w h g x y]) (simp_all add: inb_def)

theorem generateMaze_border_is_Wall_witness:
  "generateMaze 3 21 (\<lambda>k. directions) = Inr maze_3_21
   \<and> peek maze_3_21 0 1 = Some Wall \<and> peek maze_3_21 20 1 = Some Wall
   \<and> peek maze_3_21 7 0 = Some Wall \<and> peek maze_3_21 19 2 = Some Wall"
  using generateMaze_border_is_Wall [of 3 21 "\<lambda>k. directions" maze_3_21 1 0]
    generateMaze_border_is_Wall [of 3 21 "\<lambda>k. directions" maze_3_21 1 20]
    generateMaze_border_is_Wall [of 3 21 "\<lambda>k. directions" maze_3_21 0 7]
    generateMaze_border_is_Wall [of 3 21 "\<lambda>k. directions" maze_3_21 2 19]
  by (simp add: generateMaze_3_21 shuffles_directions)

text \<open>
  Claim C4. For every grid that \<open>generateMaze\<close> returns with odd width and height of at
  least 3, the start cell \<^verbatim>\<open>grid[1][1]\<close> and the goal cell \<^verbatim>\<open>grid[height-2][width-2]\<close> are
  passages.
\<close>

theorem generateMaze_start_and_goal_are_Path:
  "odd w \<Longrightarrow> odd h \<Longrightarrow> 3 \<le> w \<Longrightarrow> 3 \<le> h \<Longrightarrow> shuffles order \<Longrightarrow>
   generateMaze w h order = Inr g \<Longrightarrow>
   peek g 1 1 = Some Path \<and> peek g (h - 2) (w - 2) = Some Path"
  by (rule start_goal_returned [of order w h g])

theorem generateMaze_start_and_goal_are_Path_witness:
  "generateMaze 3 21 (\<lambda>k. directions) = Inr maze_3_21
   \<and> peek maze_3_21 1 1 = Some Path \<and> peek maze_3_21 (21 - 2) (3 - 2) = Some Path
   \<and> (\<exists>g. generateMaze MAZE_WIDTH MAZE_HEIGHT (\<lambda>k. directions) = Inr g
        \<and> peek g 1 1 = Some Path \<and> peek g (MAZE_HEIGHT - 2) (MAZE_WIDTH - 2) = Some Path)"
proof -
  from generateMaze_result [OF shuffles_directions, of MAZE_HEIGHT MAZE_WIDTH]
  obtain g where g: "generateMaze MAZE_WIDTH MAZE_HEIGHT (\<lambda>k. directions) = Inr g"
    by (auto simp: MAZE_HEIGHT_def MAZE_WIDTH_def)
  have "peek g 1 1 = Some Path \<and> peek g (MAZE_HEIGHT - 2) (MAZE_WIDTH - 2) = Some Path"
    by (rule generateMaze_start_and_goal_are_Path [OF _ _ _ _ shuffles_directions g])
      (simp_all add: MAZE_WIDTH_def MAZE_HEIGHT_def)
  with g generateMaze_start_and_goal_are_Path [of 3 21 "\<lambda>k. directions" maze_3_21]
  show ?thesis
    by (auto simp: generateMaze_3_21 shuffles_directions)
qed

section \<open>Termination and cost of the carving loop\<close>

lemma card_inb: "0 \<le> w \<Longrightarrow> 0 \<le> h \<Longrightarrow> int (card {(x, y). inb w h x y}) = w * h"
proof -
  assume a: "0 \<le> w" "0 \<le> h"
  have "{(x, y). inb w h x y} = {0..<w} \<times> {0..<h}"
    by (auto simp: inb_def)
  then have "card {(x, y). inb w h x y} = nat w * nat h"
    by (simp add: card_cartesian_product)
  with a show ?thesis
    by (simp add: nat_mult_distrib)
qed

lemma carve_inv_pushed_bound:
  assumes "carve_inv w h s" "0 \<le> w" "0 \<le> h"
  shows "int (length (pushed s)) \<le> w * h"
proof -
  from assms(1) have gi: "grid_inv w h (maze s)" and pn: "set (pushed s) = nodes (maze s)"
    and d: "distinct (pushed s)"
    by (auto simp: carve_inv_def)
  have "nodes (maze s) \<subseteq> {(x, y). inb w h x y}"
    by (auto simp: nodes_def dest: grid_inv_inb [OF gi])
  then have "card (nodes (maze s)) \<le> card {(x, y). inb w h x y}"
    by (rule card_mono [OF finite_inb])
  moreover from d pn have "length (pushed s) = card (nodes (maze s))"
    by (metis distinct_card)
  ultimately show ?thesis
    using card_inb [OF assms(2,3)] by simp
qed

text \<open>
  Claim C7. For every odd width and height of at least 3 and every shuffling, the carving
  loop ends, with an empty stack and without throwing. No coordinate is pushed twice
  over the whole run, the pushed coordinates are open lattice cells at the end, every
  pushed coordinate has been popped, and the loop has popped at most \<open>width * height\<close>
  times. From a width or height of \<open>2\<^sup>3\<^sup>2\<close> on, the grid cannot be built: the call ends
  with a RangeError before the loop, and nothing is popped.
\<close>

theorem carve_terminates_within_width_times_height:
  "odd w \<Longrightarrow> odd h \<Longrightarrow> 3 \<le> w \<Longrightarrow> 3 \<le> h \<Longrightarrow> shuffles order \<Longrightarrow>
   (if w < 2 ^ 32 \<and> h < 2 ^ 32
    then \<exists>s. carved w h order = Inr s \<and> stack s = [] \<and> distinct (pushed s) \<and>
           set (pushed s) = nodes (maze s) \<and> pops s = length (pushed s) \<and>
           int (pops s) \<le> w * h
    else carved w h order = Inl RangeError)"
proof -
  assume a: "odd w" "odd h" "3 \<le> w" "3 \<le> h" "shuffles order"
  show ?thesis
  proof (cases "w < 2 ^ 32 \<and> h < 2 ^ 32")
    case False
    with carved_cases [OF a(5), of h w] a(4) show ?thesis
      by (auto split: if_splits)
  next
    case True
    from carved_loop_inv [OF a(5), of w h] a(3,4) True obtain s where
      s: "carved w h order = Inr s" "loop_inv w h s" "stack s = []"
      by auto
    from s(2) have ci: "carve_inv w h s"
      by (simp add: loop_inv_def)
    from carve_inv_pushed_bound [OF ci] a(3,4) have "int (length (pushed s)) \<le> w * h"
      by simp
    with ci s(1,3) True show ?thesis
      by (auto simp: carve_inv_def)
  qed
qed

theorem carve_terminates_within_width_times_height_witness:
  "(\<exists>s. carved 3 21 (\<lambda>k. directions) = Inr s \<and> stack s = [] \<and> distinct (pushed s) \<and>
       set (pushed s) = nodes (maze s) \<and> pops s = length (pushed s) \<and>
       int (pops s) \<le> 3 * 21)
   \<and> carved 3 4294967297 (\<lambda>k. directions) = Inl RangeError
   \<and> carved 4294967297 3 (\<lambda>k. directions) = Inl RangeError"
  using carve_terminates_within_width_times_height [of 3 21 "\<lambda>k. directions"]
    carve_terminates_within_width_times_height [of 3 4294967297 "\<lambda>k. directions"]
    carve_terminates_within_width_times_height [of 4294967297 3 "\<lambda>k. directions"]
  by (simp add: shuffles_directions)

section \<open>The player\<close>

lemma target_step: "\<bar>fst (target p key) - playerX p\<bar> + \<bar>snd (target p key) - playerY p\<bar> \<le> 1"
  by (simp add: target_def Let_def)

lemma handleKeyDown_reach:
  assumes "reach g (playerX p, playerY p)"
  shows "reach g (playerX (handleKeyDown g p key), playerY (handleKeyDown g p key))"
proof -
  obtain nx ny where t: "target p key = (nx, ny)" by (cases "target p key")
  show ?thesis
  proof (cases "canMoveTo g nx ny")
    case False
    with assms t show ?thesis by (simp add: handleKeyDown_def)
  next
    case True
    from target_step [of p key] t have le: "\<bar>nx - playerX p\<bar> + \<bar>ny - playerY p\<bar> \<le> 1"
      by simp
    have "reach g (nx, ny)"
    proof (cases "\<bar>nx - playerX p\<bar> + \<bar>ny - playerY p\<bar> = 1")
      case True
      from reach.step [OF assms this] \<open>canMoveTo g nx ny\<close> show ?thesis
        by (simp add: canMoveTo_def)
    next
      case False
      with le have "nx = playerX p \<and> ny = playerY p" by auto
      with assms show ?thesis by simp
    qed
    with True t show ?thesis by (simp add: handleKeyDown_def)
  qed
qed

lemma foldl_handleKeyDown_reach:
  "reach g (playerX p, playerY p) \<Longrightarrow>
   reach g (playerX (foldl (handleKeyDown g) p keys), playerY (foldl (handleKeyDown g) p keys))"
  by (induction keys arbitrary: p) (simp_all add: handleKeyDown_reach)

lemma player_returned:
  assumes "shuffles order" "odd w" "odd h" "3 \<le> w" "3 \<le> h"
    and "generateMaze w h order = Inr g"
    and q: "q = foldl (handleKeyDown g) \<lparr>playerX = START_X, playerY = START_Y\<rparr> keys"
  shows "peek g (playerY q) (playerX q) = Some Path \<and> inb w h (playerX q) (playerY q)"
proof -
  from generateMaze_Inr [OF assms(1) _ _ assms(6)] assms(4,5) obtain s where
    li: "loop_inv w h s" and st: "stack s = []" and h: "20 \<le> h" and
    g: "\<And>y x. peek g y x = (if y = 19 \<and> x = 19 then Some Path else peek (maze s) y x)"
    by auto
  from li have gi: "grid_inv w h (maze s)"
    by (simp add: loop_inv_def carve_inv_def)
  note r = reach_returned [OF li st assms(2,3) h g]
  from gi have "peek (maze s) 1 1 = Some Path"
    by (simp add: grid_inv_def)
  then have "reach g (1, 1)"
    by (simp add: r)
  then have "reach g (playerX \<lparr>playerX = START_X, playerY = START_Y\<rparr>,
      playerY \<lparr>playerX = START_X, playerY = START_Y\<rparr>)"
    by (simp add: START_X_def START_Y_def)
  from foldl_handleKeyDown_reach [OF this, of keys] have "reach g (playerX q, playerY q)"
    by (simp add: q)
  then have p: "peek (maze s) (playerY q) (playerX q) = Some Path"
    by (simp add: r)
  from grid_inv_inb [OF gi p] p show ?thesis
    by (simp add: g)
qed

text \<open>
  Claim C9. The key handler aims at a cell at most one step away from the player (one
  step for an arrow key, the player's own cell for any other key). When the guard accepts
  that cell the position becomes that cell, and when it rejects it the position is
  unchanged. Hence, on a maze that \<open>generateMaze\<close> returned for odd width and height of
  at least 3, a player that starts at \<open>(1, 1)\<close> is on a passage inside the
  \<open>width \<times> height\<close> grid after every sequence of keys.
\<close>

theorem handleKeyDown_keeps_player_on_Path:
  "odd w \<Longrightarrow> odd h \<Longrightarrow> 3 \<le> w \<Longrightarrow> 3 \<le> h \<Longrightarrow> shuffles order \<Longrightarrow>
   generateMaze w h order = Inr g \<Longrightarrow>
   q = foldl (handleKeyDown g) \<lparr>playerX = START_X, playerY = START_Y\<rparr> keys \<Longrightarrow>
   \<bar>fst (target p key) - playerX p\<bar> + \<bar>snd (target p key) - playerY p\<bar> \<le> 1
   \<and> handleKeyDown g p key =
       (if canMoveTo g (fst (target p key)) (snd (target p key))
        then p\<lparr>playerX := fst (target p key), playerY := snd (target p key)\<rparr> else p)
   \<and> peek g (playerY q) (playerX q) = Some Path
   \<and> 0 \<le> playerX q \<and> playerX q < w \<and> 0 \<le> playerY q \<and> playerY q < h"
  using player_returned [of order w h g q keys] target_step [of p key]
  by (simp add: handleKeyDown_def inb_def split: prod.splits)

theorem handleKeyDown_keeps_player_on_Path_witness:
  "generateMaze 3 21 (\<lambda>k. directions) = Inr maze_3_21
   \<and> foldl (handleKeyDown maze_3_21) \<lparr>playerX = START_X, playerY = START_Y\<rparr>
        [''ArrowDown'', ''ArrowDown'', ''ArrowLeft'', ''ArrowUp'', ''Enter'']
      = \<lparr>playerX = 1, playerY = 2\<rparr>
   \<and> handleKeyDown maze_3_21 \<lparr>playerX = 1, playerY = 3\<rparr> ''ArrowLeft''
      = \<lparr>playerX = 1, playerY = 3\<rparr>
   \<and> handleKeyDown maze_3_21 \<lparr>playerX = 1, playerY = 3\<rparr> ''ArrowUp''
      = \<lparr>playerX = 1, playerY = 2\<rparr>
   \<and> peek maze_3_21 2 1 = Some Path"
proof -
  have q: "\<lparr>playerX = 1, playerY = 2\<rparr> =
      foldl (handleKeyDown maze_3_21) \<lparr>playerX = START_X, playerY = START_Y\<rparr>
        [''ArrowDown'', ''ArrowDown'', ''ArrowLeft'', ''ArrowUp'', ''Enter'']"
    by code_simp
  have l: "handleKeyDown maze_3_21 \<lparr>playerX = 1, playerY = 3\<rparr> ''ArrowLeft''
      = \<lparr>playerX = 1, playerY = 3\<rparr>"
    by code_simp
  have u: "handleKeyDown maze_3_21 \<lparr>playerX = 1, playerY = 3\<rparr> ''ArrowUp''
      = \<lparr>playerX = 1, playerY = 2\<rparr>"
    by code_simp
  from handleKeyDown_keeps_player_on_Path
    [of 3 21 "\<lambda>k. directions" maze_3_21 "\<lparr>playerX = 1, playerY = 2\<rparr>"
      "[''ArrowDown'', ''ArrowDown'', ''ArrowLeft'', ''ArrowUp'', ''Enter'']",
      OF _ _ _ _ shuffles_directions generateMaze_3_21 q]
  have "peek maze_3_21 2 1 = Some Path" by simp
  with q l u generateMaze_3_21 show ?thesis by simp
qed

section \<open>One pass of the carving loop\<close>

lemma visit_cases:
  assumes "visit x y (dx, dy) t = Inr t'"
  shows "if peek (maze t) (y + dy) (x + dx) = Some Wall
         then stack t' = (x + dx, y + dy) # stack t
           \<and> peek (maze t') (y + dy) (x + dx) = Some Path
           \<and> peek (maze t') (y + dy div 2) (x + dx div 2) = Some Path
         else t' = t"
  using visit_effect [OF assms] by auto

lemma visit_peek:
  assumes "visit x y d t = Inr t'"
  shows "peek (maze t') b a = Some Path \<or> peek (maze t') b a = peek (maze t) b a"
proof -
  from visit_effect [of x y "fst d" "snd d" t t'] assms
  have "t' = t \<or> (\<forall>y' x'. peek (maze t') y' x' =
                (if (x' = x + fst d \<and> y' = y + snd d) \<or> (x' = x + fst d div 2 \<and> y' = y + snd d div 2)
                 then Some Path else peek (maze t) y' x'))"
    by auto
  then show ?thesis
  proof
    assume "t' = t"
    then show ?thesis by simp
  next
    assume "\<forall>y' x'. peek (maze t') y' x' =
                (if (x' = x + fst d \<and> y' = y + snd d) \<or> (x' = x + fst d div 2 \<and> y' = y + snd d div 2)
                 then Some Path else peek (maze t) y' x')"
    then have "peek (maze t') b a =
                (if (a = x + fst d \<and> b = y + snd d) \<or> (a = x + fst d div 2 \<and> b = y + snd d div 2)
                 then Some Path else peek (maze t) b a)"
      by blast
    then show ?thesis
      by (cases "(a = x + fst d \<and> b = y + snd d) \<or> (a = x + fst d div 2 \<and> b = y + snd d div 2)")
        simp_all
  qed
qed

lemma visit_Wall_before:
  "visit x y d t = Inr t' \<Longrightarrow> peek (maze t') b a = Some Wall \<Longrightarrow> peek (maze t) b a = Some Wall"
  using visit_peek [of x y d t t' b a] by auto

lemma visit_Path_after:
  "visit x y d t = Inr t' \<Longrightarrow> peek (maze t) b a = Some Path \<Longrightarrow> peek (maze t') b a = Some Path"
  using visit_peek [of x y d t t' b a] by auto

lemma forEach_visit_pushes:
  assumes "forEach (visit x y) ds t = Inr t'"
  shows "(\<exists>new. pushes x y ds t t' new) \<and>
         (\<forall>a b. peek (maze t') b a = Some Wall \<longrightarrow> peek (maze t) b a = Some Wall) \<and>
         (\<forall>a b. peek (maze t) b a = Some Path \<longrightarrow> peek (maze t') b a = Some Path)"
  using assms
proof (induction ds arbitrary: t)
  case Nil
  then show ?case by (simp add: pushes_def)
next
  case (Cons d ds)
  then obtain t1 where t1: "visit x y d t = Inr t1" and r: "forEach (visit x y) ds t1 = Inr t'"
    by (auto split: sum.splits)
  from Cons.IH [OF r] obtain new1 where
    n1: "pushes x y ds t1 t' new1" and
    w1: "\<And>a b. peek (maze t') b a = Some Wall \<Longrightarrow> peek (maze t1) b a = Some Wall" and
    p1: "\<And>a b. peek (maze t1) b a = Some Path \<Longrightarrow> peek (maze t') b a = Some Path"
    by blast
  have w: "\<forall>a b. peek (maze t') b a = Some Wall \<longrightarrow> peek (maze t) b a = Some Wall"
    using w1 visit_Wall_before [OF t1] by blast
  have p: "\<forall>a b. peek (maze t) b a = Some Path \<longrightarrow> peek (maze t') b a = Some Path"
    using p1 visit_Path_after [OF t1] by blast
  obtain dx dy where d: "d = (dx, dy)" by (cases d)
  have "\<exists>new. pushes x y (d # ds) t t' new"
  proof (cases "peek (maze t) (y + dy) (x + dx) = Some Wall")
    case False
    with visit_cases [OF t1 [unfolded d]] have "t1 = t" by simp
    with n1 have "pushes x y (d # ds) t t' new1"
      by (auto simp: pushes_def)
    then show ?thesis ..
  next
    case True
    with visit_cases [OF t1 [unfolded d]] have
      st: "stack t1 = (x + dx, y + dy) # stack t" and
      c1: "peek (maze t1) (y + dy) (x + dx) = Some Path" and
      c2: "peek (maze t1) (y + dy div 2) (x + dx div 2) = Some Path"
      by simp_all
    have fresh: "(x + dx, y + dy) \<notin> set new1"
    proof
      assume "(x + dx, y + dy) \<in> set new1"
      with n1 have "peek (maze t1) (y + dy) (x + dx) = Some Wall"
        by (auto simp: pushes_def)
      with c1 show False by simp
    qed
    have old: "peek (maze t) (snd c) (fst c) = Some Wall" if "c \<in> set new1" for c
      using n1 that visit_Wall_before [OF t1] by (auto simp: pushes_def)
    have "pushes x y (d # ds) t t' (new1 @ [(x + dx, y + dy)])"
      unfolding pushes_def
    proof (intro conjI ballI)
      show "stack t' = (new1 @ [(x + dx, y + dy)]) @ stack t"
        using n1 st by (simp add: pushes_def)
      show "length (new1 @ [(x + dx, y + dy)]) \<le> length (d # ds)"
        using n1 by (simp add: pushes_def)
      show "distinct (new1 @ [(x + dx, y + dy)])"
        using n1 fresh by (simp add: pushes_def)
    next
      fix c assume c: "c \<in> set (new1 @ [(x + dx, y + dy)])"
      show "(fst c - x, snd c - y) \<in> set (d # ds)"
        using c n1 by (auto simp: pushes_def d)
      show "peek (maze t) (snd c) (fst c) = Some Wall"
        using c old True by auto
      show "peek (maze t') (snd c) (fst c) = Some Path"
        using c n1 p1 [OF c1] by (auto simp: pushes_def)
      show "peek (maze t') (y + (snd c - y) div 2) (x + (fst c - x) div 2) = Some Path"
        using c n1 p1 [OF c2] by (auto simp: pushes_def)
    qed
    then show ?thesis ..
  qed
  with w p show ?case by blast
qed

lemma forEach_visit_pops: "forEach (visit x y) ds t = Inr t' \<Longrightarrow> pops t' = pops t"
proof (induction ds arbitrary: t)
  case Nil
  then show ?case by simp
next
  case (Cons d ds)
  then obtain t1 where t1: "visit x y d t = Inr t1" and r: "forEach (visit x y) ds t1 = Inr t'"
    by (auto split: sum.splits)
  from visit_effect [of x y "fst d" "snd d" t t1] t1 have "pops t1 = pops t"
    by auto
  with Cons.IH [OF r] show ?case by simp
qed

text \<open>
  Claim C8. In every pass of the carving loop, whatever the state and the order of the
  four directions: the pass removes the popped coordinate and puts between zero and four
  coordinates on the stack, all different, none of them the popped one; each is two
  cells away from the popped cell in one of the four directions, was a wall when the pass
  began (and so when its direction was visited), and is open after the pass, as is the
  cell halfway to it. A single visit pushes exactly when the cell two steps away is a
  wall, and then both cells are open before the push; otherwise it changes nothing.
\<close>

theorem pass_pops_once_and_pushes_carved_walls:
  "mset ds = mset directions \<Longrightarrow> stack s = (x, y) # rest \<Longrightarrow> pass ds s = Inr s' \<Longrightarrow>
   (\<exists>new. stack s' = new @ rest \<and> length new \<le> 4 \<and> distinct new \<and> (x, y) \<notin> set new \<and>
      pops s' = Suc (pops s) \<and>
      (\<forall>c \<in> set new.
         (fst c - x, snd c - y) \<in> set directions \<and>
         peek (maze s) (snd c) (fst c) = Some Wall \<and>
         peek (maze s') (snd c) (fst c) = Some Path \<and>
         peek (maze s') ((y + snd c) div 2) ((x + fst c) div 2) = Some Path))
   \<and> (\<forall>dx dy t t'. visit x y (dx, dy) t = Inr t' \<longrightarrow>
        (if peek (maze t) (y + dy) (x + dx) = Some Wall
         then stack t' = (x + dx, y + dy) # stack t
           \<and> peek (maze t') (y + dy) (x + dx) = Some Path
           \<and> peek (maze t') (y + dy div 2) (x + dx div 2) = Some Path
         else t' = t))"
proof -
  assume ds: "mset ds = mset directions" and st: "stack s = (x, y) # rest"
    and ps: "pass ds s = Inr s'"
  let ?s0 = "s\<lparr>stack := rest, pops := Suc (pops s)\<rparr>"
  from ps st have fe: "forEach (visit x y) ds ?s0 = Inr s'"
    by simp
  from forEach_visit_pushes [OF fe] obtain new where n: "pushes x y ds ?s0 s' new"
    by blast
  from ds have sds: "set ds = set directions"
    by (metis set_mset_mset)
  from ds have "length ds = length directions"
    by (metis size_mset)
  then have lds: "length ds = 4"
    by (simp add: directions_def)
  have mid: "(y + b) div 2 = y + (b - y) div 2" for y b :: int
    by presburger
  have "(x, y) \<notin> set new"
  proof
    assume "(x, y) \<in> set new"
    with n have "(x - x, y - y) \<in> set ds"
      by (auto simp: pushes_def)
    with sds show False
      by (simp add: directions_def)
  qed
  moreover from n have "\<forall>c \<in> set new.
         (fst c - x, snd c - y) \<in> set directions \<and>
         peek (maze s) (snd c) (fst c) = Some Wall \<and>
         peek (maze s') (snd c) (fst c) = Some Path \<and>
         peek (maze s') ((y + snd c) div 2) ((x + fst c) div 2) = Some Path"
    by (simp add: pushes_def sds mid)
  moreover from n have "stack s' = new @ rest" "length new \<le> 4" "distinct new"
    by (simp_all add: pushes_def lds)
  moreover from forEach_visit_pops [OF fe] have "pops s' = Suc (pops s)"
    by simp
  ultimately show ?thesis
    using visit_cases by blast
qed

theorem pass_pops_once_and_pushes_carved_walls_witness:
  "pass directions
     \<lparr>maze = [replicate 5 (Some Wall),
              [Some Wall, Some Path, Some Wall, Some Wall, Some Wall],
              replicate 5 (Some Wall), replicate 5 (Some Wall), replicate 5 (Some Wall)],
      stack = [(1, 1)], pops = 0, pushed = [(1, 1)]\<rparr>
   = Inr \<lparr>maze = [replicate 5 (Some Wall),
              [Some Wall, Some Path, Some Path, Some Path, Some Wall],
              [Some Wall, Some Path, Some Wall, Some Wall, Some Wall],
              [Some Wall, Some Path, Some Wall, Some Wall, Some Wall],
              replicate 5 (Some Wall)],
      stack = [(1, 3), (3, 1)], pops = 1, pushed = [(1, 3), (3, 1), (1, 1)]\<rparr>
   \<and> (\<exists>new. [(1::int, 3::int), (3, 1)] = new @ [] \<and> length new \<le> 4 \<and> distinct new
        \<and> (1, 1) \<notin> set new)"
proof -
  let ?s = "\<lparr>maze = [replicate 5 (Some Wall),
              [Some Wall, Some Path, Some Wall, Some Wall, Some Wall],
              replicate 5 (Some Wall), replicate 5 (Some Wall), replicate 5 (Some Wall)],
      stack = [(1, 1)], pops = 0, pushed = [(1, 1)]\<rparr>"
  let ?s' = "\<lparr>maze = [replicate 5 (Some Wall),
              [Some Wall, Some Path, Some Path, Some Path, Some Wall],
              [Some Wall, Some Path, Some Wall, Some Wall, Some Wall],
              [Some Wall, Some Path, Some Wall, Some Wall, Some Wall],
              replicate 5 (Some Wall)],
      stack = [(1, 3), (3, 1)], pops = 1, pushed = [(1, 3), (3, 1), (1, 1)]\<rparr>"
  have p: "pass directions ?s = Inr ?s'"
    by code_simp
  from pass_pops_once_and_pushes_carved_walls [of directions ?s 1 1 "[]" ?s', OF refl _ p]
  have "\<exists>new. stack ?s' = new @ [] \<and> length new \<le> 4 \<and> distinct new \<and> (1, 1) \<notin> set new"
    by auto
  with p show ?thesis by simp
qed

section \<open>The carved structure\<close>

lemma carved_3_21: "carved 3 21 (\<lambda>k. directions) = Inr carved_3_21"
  by code_simp

lemma passage_joins_nodes:
  assumes "grid_inv w h m" "(x, y) \<in> passages m"
  shows "(even x \<longrightarrow> (x - 1, y) \<in> nodes m \<and> (x + 1, y) \<in> nodes m) \<and>
         (even y \<longrightarrow> (x, y - 1) \<in> nodes m \<and> (x, y + 1) \<in> nodes m)"
proof -
  from assms(2) have p: "peek m y x = Some Path"
    by (simp add: passages_def)
  from assms(1) p have par: "odd x \<or> odd y"
    by (simp add: grid_inv_def)
  from assms(1) p have hor: "even x \<Longrightarrow>
      peek m y (x - 1) = Some Path \<and> peek m y (x + 1) = Some Path"
    by (simp add: grid_inv_def)
  from assms(1) p have ver: "even y \<Longrightarrow>
      peek m (y - 1) x = Some Path \<and> peek m (y + 1) x = Some Path"
    by (simp add: grid_inv_def)
  from par hor ver show ?thesis
    by (auto simp: nodes_def)
qed

lemma carved_structure:
  assumes "shuffles order" "odd w" "odd h" "3 \<le> w" "3 \<le> h"
    and s: "carved w h order = Inr s" and g: "generateMaze w h order = Inr g"
  shows "card (passages (maze s)) + 1 = card (nodes (maze s))"
    and "card (nodes (maze s)) = length (pushed s)"
    and "\<forall>c \<in> nodes (maze s). reach (maze s) c"
    and "{c. reach g c} = nodes (maze s) \<union> passages (maze s)"
    and "card {c. reach g c} = card (nodes (maze s)) + card (passages (maze s))"
    and "nodes (maze s) \<union> passages (maze s) = {(x, y). inb w h x y \<and> peek g y x = Some Path}"
    and "grid_inv w h (maze s)"
proof -
  from generateMaze_Inr [OF assms(1) _ _ g] assms(4,5) s have
    li: "loop_inv w h s" and st: "stack s = []" and h: "20 \<le> h" and
    pk: "\<And>y x. peek g y x = (if y = 19 \<and> x = 19 then Some Path else peek (maze s) y x)"
    by auto
  from li have ci: "carve_inv w h s"
    by (simp add: loop_inv_def)
  then have gi: "grid_inv w h (maze s)" and pn: "set (pushed s) = nodes (maze s)"
    and d: "distinct (pushed s)" and cnt: "card (passages (maze s)) + 1 = length (pushed s)"
    by (auto simp: carve_inv_def)
  show "grid_inv w h (maze s)" by (rule gi)
  from d pn show n: "card (nodes (maze s)) = length (pushed s)"
    by (metis distinct_card)
  with cnt show "card (passages (maze s)) + 1 = card (nodes (maze s))"
    by simp
  from gi show "\<forall>c \<in> nodes (maze s). reach (maze s) c"
    by (auto simp: grid_inv_def nodes_def)
  have all: "nodes (maze s) \<union> passages (maze s) = {(x, y). peek (maze s) y x = Some Path}"
    by (auto simp: nodes_def passages_def)
  have "reach g c \<longleftrightarrow> peek (maze s) (snd c) (fst c) = Some Path" for c
    using reach_returned [OF li st assms(2,3) h pk, of "fst c" "snd c"] by simp
  then show r: "{c. reach g c} = nodes (maze s) \<union> passages (maze s)"
    by (auto simp: all)
  have "nodes (maze s) \<inter> passages (maze s) = {}"
    by (auto simp: nodes_def passages_def)
  with finite_nodes [OF gi] finite_passages [OF gi]
  show "card {c. reach g c} = card (nodes (maze s)) + card (passages (maze s))"
    by (simp add: r card_Un_disjoint)
  have "peek (maze s) y x = Some Path \<longleftrightarrow> inb w h x y \<and> peek g y x = Some Path" for x y
  proof (cases "y = 19 \<and> x = 19")
    case False
    then show ?thesis
      using grid_inv_inb [OF gi, of y x] by (auto simp: pk)
  next
    case True
    show ?thesis
    proof (cases "inb w h 19 19")
      case True
      from lattice_open [OF li st _ _ this] \<open>y = 19 \<and> x = 19\<close> True show ?thesis
        by (simp add: pk)
    next
      case False
      with grid_inv_inb [OF gi, of 19 19] \<open>y = 19 \<and> x = 19\<close> show ?thesis
        by auto
    qed
  qed
  then show "nodes (maze s) \<union> passages (maze s) = {(x, y). inb w h x y \<and> peek g y x = Some Path}"
    by (auto simp: all)
qed

text \<open>
  Claim C2. For every grid that \<open>generateMaze\<close> returns with odd width and height of at
  least 3, the structure that the loop carved is a tree. Its nodes are the open lattice
  cells, which are the cells that were pushed; its edges are the open cells that are not
  on the lattice, each of which lies between two nodes that are neighbours on the
  lattice. There is one edge less than there are nodes, and every node can be walked to
  from the start. The cells that can be walked to from \<open>(1, 1)\<close> in the returned grid are
  the cells that the loop opened, which are the passages of the returned grid inside
  \<open>width \<times> height\<close>; so there are as many of the one as of the other.
\<close>

theorem carved_structure_is_a_tree:
  "odd w \<Longrightarrow> odd h \<Longrightarrow> 3 \<le> w \<Longrightarrow> 3 \<le> h \<Longrightarrow> shuffles order \<Longrightarrow>
   carved w h order = Inr s \<Longrightarrow> generateMaze w h order = Inr g \<Longrightarrow>
   card (passages (maze s)) + 1 = card (nodes (maze s))
   \<and> card (nodes (maze s)) = length (pushed s)
   \<and> (\<forall>(x, y) \<in> passages (maze s).
        (even x \<longrightarrow> (x - 1, y) \<in> nodes (maze s) \<and> (x + 1, y) \<in> nodes (maze s)) \<and>
        (even y \<longrightarrow> (x, y - 1) \<in> nodes (maze s) \<and> (x, y + 1) \<in> nodes (maze s)))
   \<and> (\<forall>c \<in> nodes (maze s). reach (maze s) c)
   \<and> {c. reach g c} = nodes (maze s) \<union> passages (maze s)
   \<and> nodes (maze s) \<union> passages (maze s) = {(x, y). inb w h x y \<and> peek g y x = Some Path}
   \<and> card {c. reach g c} = card (nodes (maze s)) + card (passages (maze s))"
proof -
  assume a: "odd w" "odd h" "3 \<le> w" "3 \<le> h" "shuffles order"
    "carved w h order = Inr s" "generateMaze w h order = Inr g"
  note cs = carved_structure [OF a(5) a(1-4) a(6,7)]
  have "\<forall>(x, y) \<in> passages (maze s).
        (even x \<longrightarrow> (x - 1, y) \<in> nodes (maze s) \<and> (x + 1, y) \<in> nodes (maze s)) \<and>
        (even y \<longrightarrow> (x, y - 1) \<in> nodes (maze s) \<and> (x, y + 1) \<in> nodes (maze s))"
    using passage_joins_nodes [OF cs(7)] by blast
  with cs(1-6) show ?thesis by blast
qed

theorem carved_structure_is_a_tree_witness:
  "carved 3 21 (\<lambda>k. directions) = Inr carved_3_21
   \<and> generateMaze 3 21 (\<lambda>k. directions) = Inr maze_3_21
   \<and> card (nodes (maze carved_3_21)) = 10
   \<and> card (passages (maze carved_3_21)) = 9
   \<and> card {c. reach maze_3_21 c} = 19"
proof -
  have l: "length (pushed carved_3_21) = 10"
    by (simp add: carved_3_21_def)
  have o: "odd (3::int)" "odd (21::int)" "(3::int) \<le> 3" "(3::int) \<le> 21"
    by simp_all
  from carved_structure_is_a_tree [OF o shuffles_directions carved_3_21 generateMaze_3_21]
  have "card (passages (maze carved_3_21)) + 1 = card (nodes (maze carved_3_21))"
    and "card (nodes (maze carved_3_21)) = length (pushed carved_3_21)"
    and "card {c. reach maze_3_21 c} =
      card (nodes (maze carved_3_21)) + card (passages (maze carved_3_21))"
    by blast+
  with l carved_3_21 generateMaze_3_21 show ?thesis
    by simp
qed

section \<open>The write to the goal cell\<close>

text \<open>When the loop ends, every lattice cell inside the grid is open, the cell
  \<open>(width - 2, height - 2)\<close> among them.\<close>

lemma carved_opens_whole_lattice:
  assumes "shuffles order" "odd w" "odd h" "3 \<le> w" "3 \<le> h" "w < 2 ^ 32" "h < 2 ^ 32"
  shows "\<exists>s. carved w h order = Inr s \<and> stack s = [] \<and>
           (\<forall>x y. odd x \<and> odd y \<and> inb w h x y \<longrightarrow> peek (maze s) y x = Some Path) \<and>
           peek (maze s) (h - 2) (w - 2) = Some Path"
proof -
  from carved_loop_inv [OF assms(1), of w h] assms(4-7) obtain s where
    s: "carved w h order = Inr s" "loop_inv w h s" "stack s = []"
    by auto
  have "peek (maze s) (h - 2) (w - 2) = Some Path"
    by (rule lattice_open [OF s(2,3)]) (use assms(2-5) in \<open>auto simp: inb_def\<close>)
  with s lattice_open [OF s(2,3)] show ?thesis
    by blast
qed

text \<open>The source writes to \<^verbatim>\<open>maze[GOAL_Y][GOAL_X]\<close>, the cell \<open>(19, 19)\<close> whatever the
  arguments are. From width and height 21 on this is an open lattice cell and the write
  changes nothing; then all passages of the returned maze are connected to the start.\<close>

lemma generateMaze_unchanged_from_21:
  assumes "shuffles order" "odd w" "odd h" "21 \<le> w" "21 \<le> h"
    and "carved w h order = Inr s"
  shows "generateMaze w h order = Inr (maze s)"
proof -
  from carved_loop_inv [OF assms(1), of w h] assms(4-6) carved_Inr_bounds [OF assms(1,6)]
  have s: "loop_inv w h s" "stack s = []"
    by auto
  have "peek (maze s) 19 19 = Some Path"
    by (rule lattice_open [OF s]) (use assms(4,5) in \<open>auto simp: inb_def\<close>)
  then have "put (maze s) GOAL_Y GOAL_X Path = Inr (maze s)"
    by (simp add: put_same GOAL_Y_def GOAL_X_def MAZE_WIDTH_def MAZE_HEIGHT_def)
  with assms(6) show ?thesis
    by (simp add: generateMaze_def)
qed

lemma generateMaze_connected_from_21:
  assumes "shuffles order" "odd w" "odd h" "21 \<le> w" "21 \<le> h"
    and "generateMaze w h order = Inr g" "peek g y x = Some Path"
  shows "reach g (x, y)"
proof -
  from carved_loop_inv [OF assms(1), of w h] assms(4,5) generateMaze_Inr_bounds [OF assms(1,6)]
  obtain s where s: "carved w h order = Inr s" "loop_inv w h s"
    by auto
  from generateMaze_unchanged_from_21 [OF assms(1-5) s(1)] assms(6) have "g = maze s"
    by simp
  with s(2) assms(7) show ?thesis
    by (simp add: loop_inv_def carve_inv_def grid_inv_def)
qed

text \<open>With width 3 and height 21 the cell \<open>(19, 19)\<close> is outside the grid: the write
  grows row 19, and the new passage cannot be walked to.\<close>

lemma not_reach_3_21: "\<not> reach maze_3_21 (19, 19)"
proof
  assume "reach maze_3_21 (19, 19)"
  then have "(19, 19) \<in> {c. reach maze_3_21 c}"
    by simp
  also have "{c. reach maze_3_21 c} = nodes (maze carved_3_21) \<union> passages (maze carved_3_21)"
    by (rule carved_structure(4) [OF shuffles_directions _ _ _ _ carved_3_21 generateMaze_3_21])
      simp_all
  also have "\<dots> = {(x, y). inb 3 21 x y \<and> peek maze_3_21 y x = Some Path}"
    by (rule carved_structure(6) [OF shuffles_directions _ _ _ _ carved_3_21 generateMaze_3_21])
      simp_all
  finally show False
    by (simp add: inb_def)
qed

lemma reach_start_3_21: "reach maze_3_21 (1, 1)"
proof -
  have "peek maze_3_21 START_Y START_X = Some Path"
    by code_simp
  from reach.start [OF this] show ?thesis
    by (simp add: START_X_def START_Y_def)
qed

text \<open>
  Claim C1 says that in every grid that \<open>generateMaze\<close> returns with odd width and height
  of at least 3, the passages form one connected component that contains \<open>(1, 1)\<close>. The
  source writes the goal to the fixed cell \<open>(19, 19)\<close> and not to
  \<open>(width - 2, height - 2)\<close>: \<^verbatim>\<open>generateMaze(3, 21)\<close> returns a maze in which
  \<^verbatim>\<open>maze[19][19]\<close> is a passage that cannot be walked to from the start.
\<close>

theorem generateMaze_3_21_has_isolated_passage:
  "generateMaze 3 21 (\<lambda>k. directions) = Inr maze_3_21
   \<and> peek maze_3_21 19 19 = Some Path
   \<and> reach maze_3_21 (1, 1)
   \<and> \<not> reach maze_3_21 (19, 19)"
proof -
  have "peek maze_3_21 19 19 = Some Path"
    by code_simp
  with generateMaze_3_21 reach_start_3_21 not_reach_3_21 show ?thesis
    by simp
qed

text \<open>
  Claim C10 says that the loop opens the whole lattice for every odd width and height of
  at least 3 (which holds wherever the grid can be built, see
  \<open>carved_opens_whole_lattice\<close>) and that the write to the
  goal cell after the loop therefore never changes the grid and never creates an isolated
  passage. The source writes to \<open>(19, 19)\<close>, not to \<open>(width - 2, height - 2)\<close>: for
  width 3 and height 21 the loop has opened \<open>(1, 19)\<close>, the write changes the maze, and
  none of the four cells around the new passage is open. For width and height 5 the
  write throws.
\<close>

theorem generateMaze_3_21_goal_write_changes_maze:
  "carved 3 21 (\<lambda>k. directions) = Inr carved_3_21
   \<and> peek (maze carved_3_21) (21 - 2) (3 - 2) = Some Path
   \<and> peek (maze carved_3_21) 19 19 = None
   \<and> generateMaze 3 21 (\<lambda>k. directions) = Inr maze_3_21
   \<and> maze_3_21 \<noteq> maze carved_3_21
   \<and> canMoveTo maze_3_21 19 19
   \<and> canMoveTo maze_3_21 18 19 = False \<and> canMoveTo maze_3_21 20 19 = False
   \<and> canMoveTo maze_3_21 19 18 = False \<and> canMoveTo maze_3_21 19 20 = False
   \<and> generateMaze 5 5 (\<lambda>k. directions) = Inl TypeError"
proof -
  have "peek (maze carved_3_21) (21 - 2) (3 - 2) = Some Path"
    "peek (maze carved_3_21) 19 19 = None"
    "canMoveTo maze_3_21 19 19"
    "canMoveTo maze_3_21 18 19 = False" "canMoveTo maze_3_21 20 19 = False"
    "canMoveTo maze_3_21 19 18 = False" "canMoveTo maze_3_21 19 20 = False"
    by code_simp+
  moreover from this(2,3) have "maze_3_21 \<noteq> maze carved_3_21"
    by (auto simp: canMoveTo_def)
  moreover have "generateMaze 5 5 (\<lambda>k. directions) = Inl TypeError"
    by code_simp
  ultimately show ?thesis
    using carved_3_21 generateMaze_3_21 by simp
qed

end
